theory Spec2Isabelle
  imports Main "HOL-Library.AList" "HOL-Library.Sublist"
begin

section \<open>Memory model\<close>

text \<open>
  The source (\<^verbatim>\<open>src/trie/src.hpp\<close>) builds its tries out of heap nodes held by
  \<^verbatim>\<open>std::shared_ptr\<close>. Several claims speak about reference identity, so nodes live
  in an explicit store: a list of cells, an address being an index into it. A fresh
  allocation appends a cell, so its address differs from every address handed out before.
  A null \<^verbatim>\<open>shared_ptr\<close> is \<open>None\<close>. Reference counts are not modelled: a cell
  that the program no longer references simply stays in the list.

  The fields \<^verbatim>\<open>children_\<close>, \<^verbatim>\<open>is_value_node_\<close>, \<^verbatim>\<open>value_\<close>, \<^verbatim>\<open>root_\<close>,
  \<^verbatim>\<open>version_\<close> and \<^verbatim>\<open>snapshots_\<close> lose their trailing underscore, which Isabelle
  does not accept in a name.

  A node is either a plain \<^verbatim>\<open>TrieNode\<close> (\<open>node_value = None\<close>) or a
  \<^verbatim>\<open>TrieNodeWithValue<T>\<close> (\<open>node_value = Some (T, v)\<close>, with \<open>T\<close> standing for the
  template argument and \<open>v\<close> for the object behind \<^verbatim>\<open>value_\<close>). The flag
  \<open>is_value_node\<close> is a field of its own, as in the source, where
  \<^verbatim>\<open>Trie::Remove\<close> clears it on a node that keeps its dynamic type.
  The children are a \<^verbatim>\<open>std::map\<close>; the model keeps them as an association list read
  with \<open>map_of\<close>, written with \<open>AList.update\<close> and erased with \<open>AList.delete\<close>.
\<close>

record ('t, 'v) TrieNode =
  children :: "(char \<times> nat) list"
  is_value_node :: bool
  node_value :: "('t \<times> 'v) option"

type_synonym ('t, 'v) heap = "('t, 'v) TrieNode list"

text \<open>
  A \<^verbatim>\<open>Trie\<close> holds its root pointer and nothing else; \<^verbatim>\<open>operator==\<close> compares the
  root pointers, which is equality of the record.
\<close>

record Trie =
  root :: "nat option"

datatype fault =
    NullPointerDereference
  | MapAtOutOfRange
  | PopBackOnEmptyVector
  | BackOnEmptyVector

text \<open>\<^verbatim>\<open>TrieNode()\<close>: no children, the flag \<^verbatim>\<open>false\<close>.\<close>

definition TrieNode_default :: "('t, 'v) TrieNode" where
  "TrieNode_default = \<lparr>children = [], is_value_node = False, node_value = None\<rparr>"

text \<open>\<^verbatim>\<open>TrieNode(children)\<close>.\<close>

definition TrieNode_of :: "(char \<times> nat) list \<Rightarrow> ('t, 'v) TrieNode" where
  "TrieNode_of cs = \<lparr>children = cs, is_value_node = False, node_value = None\<rparr>"

text \<open>\<^verbatim>\<open>TrieNodeWithValue<T>(children, value)\<close>: the constructor sets the flag.\<close>

definition TrieNodeWithValue :: "(char \<times> nat) list \<Rightarrow> 't \<Rightarrow> 'v \<Rightarrow> ('t, 'v) TrieNode" where
  "TrieNodeWithValue cs T v = \<lparr>children = cs, is_value_node = True, node_value = Some (T, v)\<rparr>"

text \<open>
  The virtual \<^verbatim>\<open>Clone\<close>: a plain node copies its children only; a value node goes
  through the constructor of \<^verbatim>\<open>TrieNodeWithValue\<close>, which sets the flag again
  whatever it was in the node cloned.
\<close>

definition Clone :: "('t, 'v) TrieNode \<Rightarrow> ('t, 'v) TrieNode" where
  "Clone n =
     (case node_value n of
        None \<Rightarrow> TrieNode_of (children n)
      | Some (T, v) \<Rightarrow> TrieNodeWithValue (children n) T v)"

text \<open>
  \<^verbatim>\<open>std::dynamic_pointer_cast<TrieNodeWithValue<T>>\<close>: the value when the node's
  dynamic type is \<^verbatim>\<open>TrieNodeWithValue<T>\<close> for this very \<open>T\<close>, null otherwise.
\<close>

definition cast_with_value :: "'t \<Rightarrow> ('t, 'v) TrieNode \<Rightarrow> 'v option" where
  "cast_with_value T n =
     (case node_value n of
        None \<Rightarrow> None
      | Some (T', v) \<Rightarrow> if T' = T then Some v else None)"

definition alloc :: "('t, 'v) heap \<Rightarrow> ('t, 'v) TrieNode \<Rightarrow> nat \<times> ('t, 'v) heap" where
  "alloc h n = (length h, h @ [n])"

text \<open>\<^verbatim>\<open>a->children_[ch] = b\<close>.\<close>

definition set_child :: "('t, 'v) heap \<Rightarrow> nat \<Rightarrow> char \<Rightarrow> nat \<Rightarrow> ('t, 'v) heap" where
  "set_child h a ch b = h[a := (h ! a)\<lparr>children := AList.update ch b (children (h ! a))\<rparr>]"

text \<open>\<^verbatim>\<open>a->children_.erase(ch)\<close>.\<close>

definition erase_child :: "('t, 'v) heap \<Rightarrow> nat \<Rightarrow> char \<Rightarrow> ('t, 'v) heap" where
  "erase_child h a ch = h[a := (h ! a)\<lparr>children := AList.delete ch (children (h ! a))\<rparr>]"

text \<open>\<^verbatim>\<open>children_.at(ch)\<close> throws \<^verbatim>\<open>std::out_of_range\<close> on a missing key.\<close>

definition map_at :: "(char \<times> nat) list \<Rightarrow> char \<Rightarrow> fault + nat" where
  "map_at cs ch = (case map_of cs ch of None \<Rightarrow> Inl MapAtOutOfRange | Some b \<Rightarrow> Inr b)"

section \<open>Trie\<close>

text \<open>
  \<^verbatim>\<open>Trie::Get<T>\<close>. The loop and the test after it are one recursion over the key;
  \<open>cur\<close> is the pointer the loop advances. \<open>Inr None\<close> is the null result.
\<close>

fun Get_from :: "('t, 'v) heap \<Rightarrow> nat option \<Rightarrow> string \<Rightarrow> 't \<Rightarrow> fault + 'v option" where
  "Get_from h cur [] T =
     (case cur of
        None \<Rightarrow> Inr None
      | Some a \<Rightarrow>
          if is_value_node (h ! a)
          then (case cast_with_value T (h ! a) of
                  Some v \<Rightarrow> Inr (Some v)
                | None \<Rightarrow> Inr None)
          else Inr None)"
| "Get_from h cur (ch # key) T =
     (case cur of
        None \<Rightarrow> Inr None
      | Some a \<Rightarrow>
          (case map_of (children (h ! a)) ch of
             None \<Rightarrow> Inr None
           | Some _ \<Rightarrow>
               (case map_at (children (h ! a)) ch of
                  Inl e \<Rightarrow> Inl e
                | Inr b \<Rightarrow> Get_from h (Some b) key T)))"

definition Get :: "('t, 'v) heap \<Rightarrow> Trie \<Rightarrow> string \<Rightarrow> 't \<Rightarrow> fault + 'v option" where
  "Get h t key T = Get_from h (root t) key T"

text \<open>
  The loop of \<^verbatim>\<open>Trie::Put\<close>: it threads the store, \<^verbatim>\<open>parent\<close>, \<^verbatim>\<open>pre\<close>
  and \<^verbatim>\<open>pre_char\<close>.
\<close>

fun Put_loop ::
  "('t, 'v) heap \<Rightarrow> nat \<Rightarrow> nat option \<Rightarrow> char \<Rightarrow> string \<Rightarrow> ('t, 'v) heap \<times> nat \<times> nat option \<times> char"
where
  "Put_loop h parent pre pre_char [] = (h, parent, pre, pre_char)"
| "Put_loop h parent pre pre_char (ch # key) =
     (let (new_node, h1) =
            alloc h (case map_of (children (h ! parent)) ch of
                       Some b \<Rightarrow> Clone (h ! b)
                     | None \<Rightarrow> TrieNode_default)
      in Put_loop (set_child h1 parent ch new_node) new_node (Some parent) ch key)"

text \<open>
  \<^verbatim>\<open>Trie::Put<T>\<close>. After the loop \<^verbatim>\<open>pre\<close> is still null when the key is empty, and
  the first branch dereferences it.
\<close>

definition Put :: "('t, 'v) heap \<Rightarrow> Trie \<Rightarrow> string \<Rightarrow> 't \<Rightarrow> 'v \<Rightarrow> fault + (Trie \<times> ('t, 'v) heap)" where
  "Put h t key T v =
     (let (new_root, h0) =
            alloc h (case root t of Some r \<Rightarrow> Clone (h ! r) | None \<Rightarrow> TrieNode_default);
          (h1, parent, pre, pre_char) = Put_loop h0 new_root None (CHR 0x00) key
      in if \<not> is_value_node (h1 ! parent)
         then (let (new_node, h2) = alloc h1 (TrieNodeWithValue (children (h1 ! parent)) T v)
               in case pre of
                    None \<Rightarrow> Inl NullPointerDereference
                  | Some p \<Rightarrow> Inr (\<lparr>root = Some new_root\<rparr>, set_child h2 p pre_char new_node))
         else (case cast_with_value T (h1 ! parent) of
                 Some _ \<Rightarrow>
                   Inr (\<lparr>root = Some new_root\<rparr>,
                        h1[parent := (h1 ! parent)\<lparr>node_value := Some (T, v)\<rparr>])
               | None \<Rightarrow> Inr (\<lparr>root = Some new_root\<rparr>, h1)))"

text \<open>
  The first loop of \<^verbatim>\<open>Trie::Remove\<close>. \<open>None\<close> is its \<^verbatim>\<open>return *this\<close>. Its test
  \<^verbatim>\<open>!parent\<close> never holds, \<^verbatim>\<open>parent\<close> being the clone made just before. The vector
  \<^verbatim>\<open>path\<close> is kept with its back at the head of the list: \<^verbatim>\<open>emplace_back\<close> is
  \<open>#\<close>, \<^verbatim>\<open>back\<close> the head, \<^verbatim>\<open>pop_back\<close> the tail.
\<close>

fun Remove_loop ::
  "('t, 'v) heap \<Rightarrow> nat \<Rightarrow> (nat \<times> char) list \<Rightarrow> string \<Rightarrow> (('t, 'v) heap \<times> nat \<times> (nat \<times> char) list) option"
where
  "Remove_loop h parent path [] = Some (h, parent, path)"
| "Remove_loop h parent path (ch # key) =
     (case map_of (children (h ! parent)) ch of
        None \<Rightarrow> None
      | Some b \<Rightarrow>
          (let (new_node, h1) = alloc h (Clone (h ! b))
           in Remove_loop (set_child h1 parent ch new_node) new_node ((parent, ch) # path) key))"

text \<open>The \<^verbatim>\<open>while (!path.empty())\<close> loop of \<^verbatim>\<open>Trie::Remove\<close>.\<close>

fun Remove_prune :: "('t, 'v) heap \<Rightarrow> (nat \<times> char) list \<Rightarrow> ('t, 'v) heap" where
  "Remove_prune h [] = h"
| "Remove_prune h ((node, ch) # path) =
     (case map_of (children (h ! node)) ch of
        None \<Rightarrow> Remove_prune h path
      | Some child \<Rightarrow>
          if \<not> is_value_node (h ! child) \<and> children (h ! child) = []
          then Remove_prune (erase_child h node ch) path
          else h)"

text \<open>
  \<^verbatim>\<open>Trie::Remove\<close>. Where it returns \<^verbatim>\<open>*this\<close> the clones made so far are released
  with the locals that held them, and the store is the one the call started from.
  \<^verbatim>\<open>path.pop_back()\<close> on an empty vector is undefined behaviour, a fault here.
\<close>

definition Remove :: "('t, 'v) heap \<Rightarrow> Trie \<Rightarrow> string \<Rightarrow> fault + (Trie \<times> ('t, 'v) heap)" where
  "Remove h t key =
     (case root t of
        None \<Rightarrow> Inr (t, h)
      | Some cur \<Rightarrow>
          (let (new_root, h0) = alloc h (Clone (h ! cur))
           in case Remove_loop h0 new_root [] key of
                None \<Rightarrow> Inr (t, h)
              | Some (h1, parent, path) \<Rightarrow>
                  if is_value_node (h1 ! parent)
                  then (let h2 = h1[parent := (h1 ! parent)\<lparr>is_value_node := False\<rparr>]
                        in if children (h2 ! parent) = []
                           then (case path of
                                   [] \<Rightarrow> Inl PopBackOnEmptyVector
                                 | _ # path' \<Rightarrow>
                                     Inr (\<lparr>root = Some new_root\<rparr>, Remove_prune h2 path'))
                           else (let (parent', h3) = alloc h2 (TrieNode_of (children (h2 ! parent)))
                                 in case path of
                                      (prev, prev_char) # _ \<Rightarrow>
                                        Inr (\<lparr>root = Some new_root\<rparr>,
                                             Remove_prune (set_child h3 prev prev_char parent') path)
                                    | [] \<Rightarrow> Inr (\<lparr>root = Some parent'\<rparr>, Remove_prune h3 path)))
                  else Inr (t, h)))"

section \<open>TrieStore\<close>

text \<open>
  The store's data members. \<^verbatim>\<open>version_\<close> is declared without an initialiser, so the
  constructor takes the value it starts with as a parameter. \<^verbatim>\<open>snapshots_{1}\<close> is a
  vector of one default-constructed (empty) trie. The two locks are not modelled: a call
  runs from start to end on the state it is given.
\<close>

record TrieStore =
  version :: nat
  snapshots :: "Trie list"

definition TrieStore_init :: "nat \<Rightarrow> TrieStore" where
  "TrieStore_init v0 = \<lparr>version = v0, snapshots = [\<lparr>root = None\<rparr>]\<rparr>"

definition get_version :: "TrieStore \<Rightarrow> nat" where
  "get_version s = version s"

text \<open>\<^verbatim>\<open>snapshots_.back()\<close>; undefined behaviour on an empty vector, a fault here.\<close>

definition snapshots_back :: "Trie list \<Rightarrow> fault + Trie" where
  "snapshots_back ts = (case ts of [] \<Rightarrow> Inl BackOnEmptyVector | _ # _ \<Rightarrow> Inr (last ts))"

text \<open>\<^verbatim>\<open>TrieStore::Put\<close>: the result is the version returned, the store and the new state.\<close>

definition TrieStore_Put ::
  "('t, 'v) heap \<Rightarrow> TrieStore \<Rightarrow> string \<Rightarrow> 't \<Rightarrow> 'v \<Rightarrow> fault + (nat \<times> ('t, 'v) heap \<times> TrieStore)"
where
  "TrieStore_Put h s key T v =
     (case snapshots_back (snapshots s) of
        Inl e \<Rightarrow> Inl e
      | Inr old_trie \<Rightarrow>
          (case Put h old_trie key T v of
             Inl e \<Rightarrow> Inl e
           | Inr (new_trie, h') \<Rightarrow>
               (let s' = s\<lparr>snapshots := snapshots s @ [new_trie]\<rparr>
                in Inr (get_version s', h', s'))))"

text \<open>\<^verbatim>\<open>TrieStore::Remove\<close>.\<close>

definition TrieStore_Remove ::
  "('t, 'v) heap \<Rightarrow> TrieStore \<Rightarrow> string \<Rightarrow> fault + (nat \<times> ('t, 'v) heap \<times> TrieStore)"
where
  "TrieStore_Remove h s key =
     (case snapshots_back (snapshots s) of
        Inl e \<Rightarrow> Inl e
      | Inr cur \<Rightarrow>
          (case Remove h cur key of
             Inl e \<Rightarrow> Inl e
           | Inr (new_trie, h') \<Rightarrow>
               (let s' = (if new_trie \<noteq> cur then s\<lparr>snapshots := snapshots s @ [new_trie]\<rparr> else s)
                in Inr (get_version s', h', s'))))"

section \<open>Notions the properties are stated with\<close>

text \<open>
  The cell a run of child lookups along \<open>key\<close> ends in, starting from \<open>cur\<close>; \<open>None\<close>
  when the start is null or a character has no child.
\<close>

fun walk :: "('t, 'v) heap \<Rightarrow> nat option \<Rightarrow> string \<Rightarrow> nat option" where
  "walk h cur [] = cur"
| "walk h cur (ch # key) =
     (case cur of
        None \<Rightarrow> None
      | Some a \<Rightarrow> walk h (map_of (children (h ! a)) ch) key)"

text \<open>
  A store without dangling pointers: every child pointer of every cell is an address of
  the store, and so is a trie's root. A \<^verbatim>\<open>shared_ptr\<close> is null or points to a live
  node, so every state of the program has this shape.
\<close>

definition heap_ok :: "('t, 'v) heap \<Rightarrow> bool" where
  "heap_ok h = list_all (\<lambda>n. list_all (\<lambda>cb. snd cb < length h) (children n)) h"

definition ptr_ok :: "('t, 'v) heap \<Rightarrow> nat option \<Rightarrow> bool" where
  "ptr_ok h p = (case p of None \<Rightarrow> True | Some a \<Rightarrow> a < length h)"

definition trie_ok :: "('t, 'v) heap \<Rightarrow> Trie \<Rightarrow> bool" where
  "trie_ok h t = (heap_ok h \<and> ptr_ok h (root t))"

text \<open>
  \<open>shadow h h' old n key\<close>: in the store \<open>h'\<close> the cell \<open>n\<close>, allocated after \<open>h\<close>,
  heads a chain of cells along \<open>key\<close>, each allocated after \<open>h\<close> and later than the one
  before it; off the key every cell of the chain has exactly the children that the cell
  at the same place under \<open>old\<close> has in \<open>h\<close>.
\<close>

fun shadow :: "('t, 'v) heap \<Rightarrow> ('t, 'v) heap \<Rightarrow> nat option \<Rightarrow> nat \<Rightarrow> string \<Rightarrow> bool" where
  "shadow h h' old n [] =
     (length h \<le> n \<and> n < length h' \<and> (\<forall>c. map_of (children (h' ! n)) c = walk h old [c]))"
| "shadow h h' old n (ch # ks) =
     (length h \<le> n \<and> n < length h' \<and>
      (\<forall>c. c \<noteq> ch \<longrightarrow> map_of (children (h' ! n)) c = walk h old [c]) \<and>
      (case map_of (children (h' ! n)) ch of
         None \<Rightarrow> False
       | Some n' \<Rightarrow> n < n' \<and> shadow h h' (walk h old [ch]) n' ks))"

text \<open>
  What the loop of \<^verbatim>\<open>Trie::Remove\<close> keeps true of \<^verbatim>\<open>path\<close>: each entry's node
  reaches, by the entry's character, the node of the entry pushed after it, and the last
  one pushed reaches \<open>nxt\<close>.
\<close>

fun path_chain :: "('t, 'v) heap \<Rightarrow> (nat \<times> char) list \<Rightarrow> nat \<Rightarrow> bool" where
  "path_chain h [] nxt = True"
| "path_chain h ((n, c) # rest) nxt =
     (n < nxt \<and> map_of (children (h ! n)) c = Some nxt \<and> path_chain h rest n)"

text \<open>
  The cell that both \<^verbatim>\<open>Put\<close> and \<^verbatim>\<open>Remove\<close> allocate for a position of the key:
  the clone of the node \<open>old\<close> found there, or a new plain node where there is none.
\<close>

definition fresh_cell :: "('t, 'v) heap \<Rightarrow> nat option \<Rightarrow> ('t, 'v) TrieNode" where
  "fresh_cell h old = (case old of Some a \<Rightarrow> Clone (h ! a) | None \<Rightarrow> TrieNode_default)"

section \<open>Walks and stores that agree on old cells\<close>

lemma walk_None [simp]: "walk h None q = None"
  by (cases q) simp_all

lemma walk_append:
  "walk h cur (p @ q) = walk h (walk h cur p) q"
  by (induction p arbitrary: cur) (auto split: option.splits)

lemma Get_from_walk:
  "Get_from h cur k T =
     Inr (case walk h cur k of
            None \<Rightarrow> None
          | Some a \<Rightarrow> if is_value_node (h ! a) then cast_with_value T (h ! a) else None)"
  by (induction k arbitrary: cur) (auto simp: map_at_def split: option.splits)

lemma heap_ok_child:
  "heap_ok h \<Longrightarrow> a < length h \<Longrightarrow> map_of (children (h ! a)) c = Some b \<Longrightarrow> b < length h"
  unfolding heap_ok_def list_all_iff
  by (metis map_of_SomeD nth_mem snd_conv)

lemma ptr_ok_child:
  "heap_ok h \<Longrightarrow> ptr_ok h old \<Longrightarrow> ptr_ok h (walk h old [c])"
  by (auto simp: ptr_ok_def split: option.splits dest: heap_ok_child)

lemma walk_agree:
  "heap_ok h \<Longrightarrow> \<forall>a<length h. h' ! a = h ! a \<Longrightarrow> ptr_ok h cur \<Longrightarrow> walk h' cur q = walk h cur q"
proof (induction q arbitrary: cur)
  case Nil
  then show ?case by simp
next
  case (Cons c q)
  show ?case
  proof (cases cur)
    case None
    then show ?thesis by simp
  next
    case (Some a)
    with Cons.prems have a: "a < length h" by (simp add: ptr_ok_def)
    with Cons.prems have eq: "h' ! a = h ! a" by simp
    have "ptr_ok h (map_of (children (h ! a)) c)"
      using ptr_ok_child [OF Cons.prems(1) Cons.prems(3), of c] Some by simp
    then show ?thesis
      using Some eq Cons.IH [OF Cons.prems(1) Cons.prems(2)] by simp
  qed
qed

lemma walk_ok:
  "heap_ok h \<Longrightarrow> ptr_ok h cur \<Longrightarrow> ptr_ok h (walk h cur q)"
proof (induction q arbitrary: cur)
  case Nil
  then show ?case by simp
next
  case (Cons c q)
  then show ?case
    using ptr_ok_child [of h cur c] by (cases cur) simp_all
qed

lemma Get_from_agree:
  "heap_ok h \<Longrightarrow> \<forall>a<length h. h' ! a = h ! a \<Longrightarrow> ptr_ok h cur \<Longrightarrow>
   Get_from h' cur q T = Get_from h cur q T"
proof (induction q arbitrary: cur)
  case Nil
  then show ?case by (auto simp: ptr_ok_def split: option.splits)
next
  case (Cons c q)
  show ?case
  proof (cases cur)
    case None
    then show ?thesis by simp
  next
    case (Some a)
    with Cons.prems have a: "a < length h" by (simp add: ptr_ok_def)
    with Cons.prems have eq: "h' ! a = h ! a" by simp
    have ok: "ptr_ok h (map_of (children (h ! a)) c)"
      using ptr_ok_child [OF Cons.prems(1) Cons.prems(3), of c] Some by simp
    show ?thesis
    proof (cases "map_of (children (h ! a)) c")
      case None
      then show ?thesis using Some eq by simp
    next
      case (Some b)
      with ok Cons.IH [OF Cons.prems(1) Cons.prems(2), of "Some b"] \<open>cur = Some a\<close> eq
      show ?thesis by (simp add: map_at_def)
    qed
  qed
qed

lemma shadow_bounds:
  "shadow h h' old n k \<Longrightarrow> length h \<le> n \<and> n < length h'"
  by (cases k) simp_all

lemma shadow_walk_on:
  "shadow h h' old n k \<Longrightarrow> prefix q k \<Longrightarrow>
   \<exists>p. walk h' (Some n) q = Some p \<and> n \<le> p \<and> shadow h h' (walk h old q) p (drop (length q) k)"
proof (induction q arbitrary: n old k)
  case Nil
  then show ?case by simp
next
  case (Cons c q)
  then obtain ks where k: "k = c # ks" and pq: "prefix q ks"
    by (cases k) auto
  from Cons.prems(1) k obtain n' where n': "map_of (children (h' ! n)) c = Some n'" "n < n'"
    "shadow h h' (walk h old [c]) n' ks"
    by (auto split: option.splits)
  from Cons.IH [OF n'(3) pq] obtain p where
    p: "walk h' (Some n') q = Some p" "n' \<le> p"
       "shadow h h' (walk h (walk h old [c]) q) p (drop (length q) ks)"
    by blast
  have "walk h (walk h old [c]) q = walk h old (c # q)"
    by (cases old) simp_all
  with p n' k show ?case by simp
qed

lemma shadow_walk_off:
  assumes "heap_ok h" and "\<forall>a<length h. h' ! a = h ! a"
  shows "ptr_ok h old \<Longrightarrow> shadow h h' old n k \<Longrightarrow> \<not> prefix q k \<Longrightarrow>
         walk h' (Some n) q = walk h old q"
proof (induction k arbitrary: old n q)
  case Nil
  then obtain c q' where q: "q = c # q'" by (cases q) auto
  have "ptr_ok h (walk h old [c])" using assms(1) Nil.prems(1) by (rule ptr_ok_child)
  then have "walk h' (walk h old [c]) q' = walk h (walk h old [c]) q'"
    using walk_agree [OF assms] by blast
  moreover have "walk h (walk h old [c]) q' = walk h old (c # q')"
    by (cases old) simp_all
  ultimately show ?case using Nil.prems(2) q by simp
next
  case (Cons ch ks)
  then obtain c q' where q: "q = c # q'" by (cases q) auto
  have okc: "ptr_ok h (walk h old [c])" using assms(1) Cons.prems(1) by (rule ptr_ok_child)
  have unfold: "walk h (walk h old [c]) q' = walk h old (c # q')"
    by (cases old) simp_all
  show ?case
  proof (cases "c = ch")
    case False
    with Cons.prems(2) have "map_of (children (h' ! n)) c = walk h old [c]" by simp
    moreover have "walk h' (walk h old [c]) q' = walk h (walk h old [c]) q'"
      using walk_agree [OF assms okc] .
    ultimately show ?thesis using q unfold by simp
  next
    case True
    with Cons.prems(3) q have np: "\<not> prefix q' ks" by simp
    from Cons.prems(2) obtain n' where n': "map_of (children (h' ! n)) ch = Some n'"
      "shadow h h' (walk h old [ch]) n' ks"
      by (auto split: option.splits)
    from Cons.IH [OF _ n'(2) np] okc True
    have "walk h' (Some n') q' = walk h (walk h old [ch]) q'" by simp
    with n' q True unfold show ?thesis by simp
  qed
qed

lemma shadow_cong:
  "shadow h h1 old n k \<Longrightarrow> length h1 \<le> length h2 \<Longrightarrow>
   \<forall>a. n \<le> a \<and> a < length h1 \<longrightarrow> children (h2 ! a) = children (h1 ! a) \<Longrightarrow>
   shadow h h2 old n k"
proof (induction k arbitrary: old n)
  case Nil
  then show ?case by simp
next
  case (Cons ch ks)
  from Cons.prems(1) obtain n' where n': "map_of (children (h1 ! n)) ch = Some n'" "n < n'"
    "shadow h h1 (walk h old [ch]) n' ks"
    by (auto split: option.splits)
  have "shadow h h2 (walk h old [ch]) n' ks"
    using Cons.IH [OF n'(3) Cons.prems(2)] Cons.prems(3) n'(2) by simp
  moreover have "children (h2 ! n) = children (h1 ! n)"
    using Cons.prems by simp
  ultimately show ?case using Cons.prems n' by simp
qed

section \<open>The cells a call allocates\<close>

lemma nth_set_child:
  "a < length h \<Longrightarrow>
   set_child h a ch b ! x =
     (if x = a then (h ! a)\<lparr>children := AList.update ch b (children (h ! a))\<rparr> else h ! x)"
  by (simp add: set_child_def nth_list_update)

lemma length_set_child [simp]: "length (set_child h a ch b) = length h"
  by (simp add: set_child_def)

lemma walk_one: "walk h (walk h old [c]) q = walk h old (c # q)"
  by (cases old) simp_all

lemma children_Clone [simp]: "children (Clone n) = children n"
  by (simp add: Clone_def TrieNode_of_def TrieNodeWithValue_def split: option.splits prod.splits)

lemma Put_loop_shadow:
  assumes ok: "heap_ok h0" and len: "length h0 \<le> parent"
  shows "\<forall>a<length h0. h ! a = h0 ! a \<Longrightarrow> parent < length h \<Longrightarrow> ptr_ok h0 old \<Longrightarrow>
         \<forall>c. map_of (children (h ! parent)) c = walk h0 old [c] \<Longrightarrow>
         Put_loop h parent pre pc key = (h1, parent', pre', pc') \<Longrightarrow>
         length h \<le> length h1 \<and> (\<forall>a<length h. a \<noteq> parent \<longrightarrow> h1 ! a = h ! a) \<and>
         shadow h0 h1 old parent key \<and> walk h1 (Some parent) key = Some parent' \<and>
         (key \<noteq> [] \<longrightarrow> pre' = walk h1 (Some parent) (butlast key) \<and> pc' = last key)"
  using len
proof (induction key arbitrary: h parent pre pc old)
  case Nil
  then show ?case by auto
next
  case (Cons ch ks)
  define cell :: "('a, 'b) TrieNode" where
    "cell = (case map_of (children (h ! parent)) ch of Some b \<Rightarrow> Clone (h ! b) | None \<Rightarrow> TrieNode_default)"
  define h2 where "h2 = set_child (h @ [cell]) parent ch (length h)"
  have loop: "Put_loop h2 (length h) (Some parent) ch ks = (h1, parent', pre', pc')"
    using Cons.prems(5) by (simp add: alloc_def cell_def h2_def)
  have h2_len: "length h2 = Suc (length h)" by (simp add: h2_def)
  have h2_nth: "h2 ! x = (if x = parent then (h ! parent)\<lparr>children := AList.update ch (length h) (children (h ! parent))\<rparr>
                            else (h @ [cell]) ! x)" for x
    using Cons.prems(2) by (simp add: h2_def nth_set_child nth_append)
  have agree2: "\<forall>a<length h0. h2 ! a = h0 ! a"
    using Cons.prems(1,2,6) by (simp add: h2_nth nth_append)
  have okc: "ptr_ok h0 (walk h0 old [ch])"
    using ok Cons.prems(3) by (rule ptr_ok_child)
  have kid: "map_of (children (h ! parent)) ch = walk h0 old [ch]"
    using Cons.prems(4) by simp
  have cellkids: "map_of (children cell) c = walk h0 (walk h0 old [ch]) [c]" for c
  proof (cases "walk h0 old [ch]")
    case None
    then show ?thesis using kid by (simp add: cell_def TrieNode_default_def)
  next
    case (Some b)
    with okc have "b < length h0" by (simp add: ptr_ok_def)
    with Cons.prems(1) have "h ! b = h0 ! b" by simp
    with Some kid show ?thesis by (simp add: cell_def)
  qed
  have new_cell: "h2 ! length h = cell"
    using Cons.prems(2) by (simp add: h2_nth)
  have IH: "length h2 \<le> length h1 \<and> (\<forall>a<length h2. a \<noteq> length h \<longrightarrow> h1 ! a = h2 ! a) \<and>
    shadow h0 h1 (walk h0 old [ch]) (length h) ks \<and> walk h1 (Some (length h)) ks = Some parent' \<and>
    (ks \<noteq> [] \<longrightarrow> pre' = walk h1 (Some (length h)) (butlast ks) \<and> pc' = last ks)"
  proof (rule Cons.IH [OF agree2 _ okc _ loop])
    show "length h < length h2" by (simp add: h2_len)
    show "\<forall>c. map_of (children (h2 ! length h)) c = walk h0 (walk h0 old [ch]) [c]"
      using cellkids new_cell by simp
    show "length h0 \<le> length h" using Cons.prems(2,6) by simp
  qed
  have par: "h1 ! parent = h2 ! parent"
    using IH Cons.prems(2) by (simp add: h2_len)
  have par_kids: "map_of (children (h1 ! parent)) c = (if c = ch then Some (length h) else walk h0 old [c])" for c
    using Cons.prems(4) by (simp add: par h2_nth update_conv')
  have frame: "\<forall>a<length h. a \<noteq> parent \<longrightarrow> h1 ! a = h ! a"
  proof (intro allI impI)
    fix a assume a: "a < length h" "a \<noteq> parent"
    then have "h1 ! a = h2 ! a" using IH by (simp add: h2_len)
    also have "\<dots> = h ! a" using a by (simp add: h2_nth nth_append)
    finally show "h1 ! a = h ! a" .
  qed
  have sh: "shadow h0 h1 old parent (ch # ks)"
    using IH Cons.prems(2,6) par_kids by (simp add: h2_len)
  have wk: "walk h1 (Some parent) (ch # ks) = Some parent'"
    using IH par_kids by simp
  have pre: "pre' = walk h1 (Some parent) (butlast (ch # ks)) \<and> pc' = last (ch # ks)"
  proof (cases ks)
    case Nil
    then show ?thesis using loop by simp
  next
    case (Cons c' ks')
    then show ?thesis using IH par_kids by simp
  qed
  show ?case using IH frame sh wk pre by (simp add: h2_len)
qed

lemma redirect_shadow:
  "shadow h0 h1 old n key \<Longrightarrow> key \<noteq> [] \<Longrightarrow>
   walk h1 (Some n) (butlast key) = Some p \<Longrightarrow> walk h1 (Some n) key = Some t \<Longrightarrow>
   children cell = children (h1 ! t) \<Longrightarrow>
   shadow h0 (set_child (h1 @ [cell]) p (last key) (length h1)) old n key"
proof (induction key arbitrary: old n)
  case Nil
  then show ?case by simp
next
  case (Cons ch ks)
  let ?hf = "set_child (h1 @ [cell]) p (last (ch # ks)) (length h1)"
  from Cons.prems(1) obtain n' where n': "map_of (children (h1 ! n)) ch = Some n'" "n < n'"
    "shadow h0 h1 (walk h0 old [ch]) n' ks" and n: "length h0 \<le> n" "n < length h1"
    and off: "\<forall>c. c \<noteq> ch \<longrightarrow> map_of (children (h1 ! n)) c = walk h0 old [c]"
    by (auto split: option.splits)
  show ?case
  proof (cases ks)
    case Nil
    with Cons.prems(3) have p: "p = n" by simp
    from Nil Cons.prems(4) n' have t: "t = n'" by simp
    have hn: "?hf ! n = (h1 ! n)\<lparr>children := AList.update ch (length h1) (children (h1 ! n))\<rparr>"
      using n Nil p by (simp add: nth_set_child nth_append)
    have hnew: "?hf ! length h1 = cell"
      using n Nil p by (simp add: nth_set_child)
    have "\<forall>c. map_of (children cell) c = walk h0 (walk h0 old [ch]) [c]"
      using n'(3) Nil Cons.prems(5) t by simp
    then show ?thesis
      using Nil n off hn hnew by (simp add: update_conv')
  next
    case (Cons c' ks')
    with Cons.prems(3) n' have wp: "walk h1 (Some n') (butlast ks) = Some p" by simp
    from Cons.prems(4) n' have wt: "walk h1 (Some n') ks = Some t" by simp
    have "prefix (butlast ks) ks" by (simp add: prefixeq_butlast)
    from shadow_walk_on [OF n'(3) this] wp have "n' \<le> p" by auto
    with n' have pn: "p \<noteq> n" by simp
    have plt: "p < length h1"
      using shadow_walk_on [OF n'(3) \<open>prefix (butlast ks) ks\<close>] wp shadow_bounds by fastforce
    have hn: "?hf ! n = h1 ! n"
      using n pn plt by (simp add: nth_set_child nth_append)
    have "shadow h0 (set_child (h1 @ [cell]) p (last ks) (length h1)) (walk h0 old [ch]) n' ks"
      using Cons.IH [OF n'(3) _ wp wt Cons.prems(5)] Cons by simp
    then show ?thesis
      using Cons n n' off hn by simp
  qed
qed

lemma Put_shadow:
  assumes ok: "trie_ok h t" and put: "Put h t k T v = Inr (t', h')"
  shows "(\<forall>a<length h. h' ! a = h ! a) \<and>
         (\<exists>n. root t' = Some n \<and> shadow h h' (root t) n k)"
proof -
  define cell :: "('a, 'b) TrieNode" where
    "cell = (case root t of Some r \<Rightarrow> Clone (h ! r) | None \<Rightarrow> TrieNode_default)"
  obtain h1 parent pre pc where loop: "Put_loop (h @ [cell]) (length h) None (CHR 0x00) k = (h1, parent, pre, pc)"
    by (cases "Put_loop (h @ [cell]) (length h) None (CHR 0x00) k") auto
  have hok: "heap_ok h" and rok: "ptr_ok h (root t)" using ok by (simp_all add: trie_ok_def)
  have kids: "\<forall>c. map_of (children ((h @ [cell]) ! length h)) c = walk h (root t) [c]"
    by (auto simp: cell_def TrieNode_default_def split: option.splits)
  have L: "length (h @ [cell]) \<le> length h1 \<and> (\<forall>a<length (h @ [cell]). a \<noteq> length h \<longrightarrow> h1 ! a = (h @ [cell]) ! a) \<and>
         shadow h h1 (root t) (length h) k \<and> walk h1 (Some (length h)) k = Some parent \<and>
         (k \<noteq> [] \<longrightarrow> pre = walk h1 (Some (length h)) (butlast k) \<and> pc = last k)"
    by (rule Put_loop_shadow [OF hok _ _ _ rok kids loop]) (simp_all add: nth_append)
  then have agree1: "\<forall>a<length h. h1 ! a = h ! a" by (simp add: nth_append)
  have sh1: "shadow h h1 (root t) (length h) k" and wk: "walk h1 (Some (length h)) k = Some parent"
    using L by simp_all
  from shadow_walk_on [OF sh1, of k] wk have par: "length h \<le> parent" "parent < length h1"
    using shadow_bounds by fastforce+
  have t': "root t' = Some (length h)"
    using put loop by (auto simp: Put_def alloc_def cell_def Let_def split: if_splits option.splits)
  show ?thesis
  proof (cases "is_value_node (h1 ! parent)")
    case True
    let ?hv = "h1[parent := (h1 ! parent)\<lparr>node_value := Some (T, v)\<rparr>]"
    from put loop True have h': "h' = ?hv \<or> h' = h1"
      by (auto simp: Put_def alloc_def cell_def Let_def split: option.splits)
    have "shadow h ?hv (root t) (length h) k"
      using par by (intro shadow_cong [OF sh1]) (auto simp: nth_list_update)
    moreover have "\<forall>a<length h. ?hv ! a = h ! a"
      using agree1 par by (simp add: nth_list_update)
    ultimately show ?thesis using h' t' sh1 agree1 by auto
  next
    case False
    let ?cell = "TrieNodeWithValue (children (h1 ! parent)) T v :: ('a, 'b) TrieNode"
    from put loop False obtain p where p: "pre = Some p"
      and h': "h' = set_child (h1 @ [?cell]) p pc (length h1)"
      by (auto simp: Put_def alloc_def cell_def Let_def split: option.splits)
    have kne: "k \<noteq> []"
      using loop p by (cases k) auto
    with L p have wp: "walk h1 (Some (length h)) (butlast k) = Some p" and pc: "pc = last k"
      by simp_all
    have sh: "shadow h h' (root t) (length h) k"
      unfolding h' pc
      by (rule redirect_shadow [OF sh1 kne wp wk]) (simp add: TrieNodeWithValue_def)
    from shadow_walk_on [OF sh1 prefixeq_butlast] wp
    have pb: "length h \<le> p" "p < length h1"
      using shadow_bounds by fastforce+
    have "\<forall>a<length h. h' ! a = h ! a"
      using agree1 pb by (simp add: h' nth_set_child nth_append)
    then show ?thesis using sh t' by simp
  qed
qed

section \<open>What Put stores at the key\<close>

text \<open>
  The last lemma of this section says when the round trip of \<^verbatim>\<open>Put\<close> and \<^verbatim>\<open>Get\<close>
  holds: a \<^verbatim>\<open>Put<T>\<close> that returns is followed by a \<^verbatim>\<open>Get<T>\<close> of the value put,
  unless the node found at the key was a \<^verbatim>\<open>TrieNodeWithValue\<close> of another type.
\<close>

lemma children_fresh_cell: "map_of (children (fresh_cell h old)) c = walk h old [c]"
  by (simp add: fresh_cell_def TrieNode_default_def split: option.splits)

lemma walk_same_children:
  "\<forall>a. children (h2 ! a) = children (h1 ! a) \<Longrightarrow> walk h2 cur q = walk h1 cur q"
  by (induction q arbitrary: cur) (auto split: option.splits)

lemma Put_loop_terminal:
  assumes ok: "heap_ok h0"
  shows "\<forall>a<length h0. h ! a = h0 ! a \<Longrightarrow> length h0 \<le> parent \<Longrightarrow> parent < length h \<Longrightarrow>
         ptr_ok h0 old \<Longrightarrow> h ! parent = fresh_cell h0 old \<Longrightarrow>
         Put_loop h parent pre pc key = (h1, parent', pre', pc') \<Longrightarrow>
         h1 ! parent' = fresh_cell h0 (walk h0 old key)"
proof (induction key arbitrary: h parent pre pc old)
  case Nil
  then show ?case by auto
next
  case (Cons ch ks)
  define cell :: "('a, 'b) TrieNode" where
    "cell = (case map_of (children (h ! parent)) ch of Some b \<Rightarrow> Clone (h ! b) | None \<Rightarrow> TrieNode_default)"
  define h2 where "h2 = set_child (h @ [cell]) parent ch (length h)"
  have loop: "Put_loop h2 (length h) (Some parent) ch ks = (h1, parent', pre', pc')"
    using Cons.prems(6) by (simp add: alloc_def cell_def h2_def)
  have okc: "ptr_ok h0 (walk h0 old [ch])"
    using ok Cons.prems(4) by (rule ptr_ok_child)
  have kid: "map_of (children (h ! parent)) ch = walk h0 old [ch]"
    using Cons.prems(5) by (simp add: children_fresh_cell)
  have cell: "cell = fresh_cell h0 (walk h0 old [ch])"
  proof (cases "walk h0 old [ch]")
    case None
    then show ?thesis using kid by (simp add: cell_def fresh_cell_def)
  next
    case (Some b)
    with okc have "b < length h0" by (simp add: ptr_ok_def)
    with Cons.prems(1) have "h ! b = h0 ! b" by simp
    with Some kid show ?thesis by (simp add: cell_def fresh_cell_def)
  qed
  have "h1 ! parent' = fresh_cell h0 (walk h0 (walk h0 old [ch]) ks)"
  proof (rule Cons.IH [OF _ _ _ okc _ loop])
    show "\<forall>a<length h0. h2 ! a = h0 ! a"
      using Cons.prems(1,2,3) by (simp add: h2_def nth_set_child nth_append)
    show "length h0 \<le> length h" using Cons.prems(2,3) by simp
    show "length h < length h2" by (simp add: h2_def)
    show "h2 ! length h = fresh_cell h0 (walk h0 old [ch])"
      using Cons.prems(3) cell by (simp add: h2_def nth_set_child)
  qed
  then show ?case unfolding walk_one .
qed

lemma redirect_walk:
  "shadow h0 h1 old n key \<Longrightarrow> key \<noteq> [] \<Longrightarrow> walk h1 (Some n) (butlast key) = Some p \<Longrightarrow>
   walk (set_child (h1 @ [cell]) p (last key) (length h1)) (Some n) key = Some (length h1)"
proof (induction key arbitrary: old n)
  case Nil
  then show ?case by simp
next
  case (Cons ch ks)
  from Cons.prems(1) obtain n' where n': "map_of (children (h1 ! n)) ch = Some n'" "n < n'"
    "shadow h0 h1 (walk h0 old [ch]) n' ks" and n: "n < length h1"
    by (auto split: option.splits)
  show ?case
  proof (cases ks)
    case Nil
    with Cons.prems(3) have "p = n" by simp
    then show ?thesis
      using Nil n by (simp add: nth_set_child nth_append update_conv')
  next
    case (Cons c' ks')
    with Cons.prems(3) n' have wp: "walk h1 (Some n') (butlast ks) = Some p" by simp
    from shadow_walk_on [OF n'(3) prefixeq_butlast] wp have "n' \<le> p" by auto
    moreover have "p < length h1"
      using shadow_walk_on [OF n'(3) prefixeq_butlast] wp shadow_bounds by fastforce
    ultimately have "set_child (h1 @ [cell]) p (last ks) (length h1) ! n = h1 ! n"
      using n n' by (simp add: nth_set_child nth_append)
    moreover have "walk (set_child (h1 @ [cell]) p (last ks) (length h1)) (Some n') ks = Some (length h1)"
      using Cons.IH [OF n'(3) _ wp] Cons by simp
    ultimately show ?thesis
      using Cons n' by simp
  qed
qed

lemma is_value_node_fresh_cell:
  "is_value_node (fresh_cell h old) \<longleftrightarrow> (\<exists>a tv. old = Some a \<and> node_value (h ! a) = Some tv)"
  by (auto simp: fresh_cell_def Clone_def TrieNode_default_def TrieNode_of_def TrieNodeWithValue_def
      split: option.splits)

lemma cast_fresh_cell:
  "cast_with_value T (fresh_cell h (Some a)) = cast_with_value T (h ! a)"
  by (auto simp: fresh_cell_def Clone_def cast_with_value_def TrieNode_of_def TrieNodeWithValue_def
      split: option.splits)

lemma Put_then_Get:
  assumes ok: "trie_ok h t" and put: "Put h t k T v = Inr (t', h')"
  shows "Get h' t' k T =
           (if \<exists>a T' v'. walk h (root t) k = Some a \<and> node_value (h ! a) = Some (T', v') \<and> T' \<noteq> T
            then Inr None else Inr (Some v))"
proof -
  define cell :: "('a, 'b) TrieNode" where "cell = fresh_cell h (root t)"
  obtain h1 parent pre pc where loop: "Put_loop (h @ [cell]) (length h) None (CHR 0x00) k = (h1, parent, pre, pc)"
    by (cases "Put_loop (h @ [cell]) (length h) None (CHR 0x00) k") auto
  have hok: "heap_ok h" and rok: "ptr_ok h (root t)" using ok by (simp_all add: trie_ok_def)
  have kids: "\<forall>c. map_of (children ((h @ [cell]) ! length h)) c = walk h (root t) [c]"
    by (simp add: cell_def children_fresh_cell)
  have L: "length (h @ [cell]) \<le> length h1 \<and> (\<forall>a<length (h @ [cell]). a \<noteq> length h \<longrightarrow> h1 ! a = (h @ [cell]) ! a) \<and>
         shadow h h1 (root t) (length h) k \<and> walk h1 (Some (length h)) k = Some parent \<and>
         (k \<noteq> [] \<longrightarrow> pre = walk h1 (Some (length h)) (butlast k) \<and> pc = last k)"
    by (rule Put_loop_shadow [OF hok _ _ _ rok kids loop]) (simp_all add: nth_append)
  have tcell: "h1 ! parent = fresh_cell h (walk h (root t) k)"
    by (rule Put_loop_terminal [OF hok _ _ _ rok _ loop]) (simp_all add: nth_append cell_def)
  have sh1: "shadow h h1 (root t) (length h) k" and wk: "walk h1 (Some (length h)) k = Some parent"
    using L by simp_all
  from shadow_walk_on [OF sh1, of k] wk have par: "parent < length h1"
    using shadow_bounds by fastforce
  have cell': "(case root t of Some r \<Rightarrow> Clone (h ! r) | None \<Rightarrow> TrieNode_default) = cell"
    by (simp add: cell_def fresh_cell_def)
  show ?thesis
  proof (cases "is_value_node (h1 ! parent)")
    case False
    let ?cell = "TrieNodeWithValue (children (h1 ! parent)) T v :: ('a, 'b) TrieNode"
    from put loop False obtain p where p: "pre = Some p"
      and h': "h' = set_child (h1 @ [?cell]) p pc (length h1)" and t': "t' = \<lparr>root = Some (length h)\<rparr>"
      by (auto simp: Put_def alloc_def cell' Let_def split: option.splits)
    have kne: "k \<noteq> []"
      using loop p by (cases k) auto
    with L p have wp: "walk h1 (Some (length h)) (butlast k) = Some p" and pc: "pc = last k"
      by simp_all
    from shadow_walk_on [OF sh1 prefixeq_butlast] wp have "p < length h1"
      using shadow_bounds by fastforce
    then have "h' ! length h1 = ?cell"
      by (simp add: h' nth_set_child)
    moreover have "walk h' (Some (length h)) k = Some (length h1)"
      unfolding h' pc by (rule redirect_walk [OF sh1 kne wp])
    ultimately have "Get h' t' k T = Inr (Some v)"
      by (simp add: Get_def Get_from_walk t' TrieNodeWithValue_def cast_with_value_def)
    moreover have "\<not> (\<exists>a T' v'. walk h (root t) k = Some a \<and> node_value (h ! a) = Some (T', v') \<and> T' \<noteq> T)"
      using False tcell by (auto simp: is_value_node_fresh_cell)
    ultimately show ?thesis by simp
  next
    case True
    then obtain a tv where a: "walk h (root t) k = Some a" "node_value (h ! a) = Some tv"
      using tcell by (auto simp: is_value_node_fresh_cell)
    obtain T' v' where tv: "tv = (T', v')" by (cases tv)
    have "cast_with_value T (h1 ! parent) = cast_with_value T (h ! a)"
      using tcell a by (simp add: cast_fresh_cell)
    then have cast: "cast_with_value T (h1 ! parent) = (if T' = T then Some v' else None)"
      using a tv by (simp add: cast_with_value_def)
    show ?thesis
    proof (cases "T' = T")
      case True
      let ?hv = "h1[parent := (h1 ! parent)\<lparr>node_value := Some (T, v)\<rparr>]"
      from put loop \<open>is_value_node (h1 ! parent)\<close> cast True
      have h': "h' = ?hv" and t': "t' = \<lparr>root = Some (length h)\<rparr>"
        by (auto simp: Put_def alloc_def cell' Let_def split: option.splits)
      have "\<forall>a. children (?hv ! a) = children (h1 ! a)"
        using par by (auto simp: nth_list_update)
      from walk_same_children [OF this] wk
      have "walk ?hv (Some (length h)) k = Some parent"
        by simp
      then have "Get h' t' k T = Inr (Some v)"
        using \<open>is_value_node (h1 ! parent)\<close> par
        by (simp add: Get_def Get_from_walk t' h' cast_with_value_def)
      then show ?thesis using a tv True by simp
    next
      case False
      from put loop \<open>is_value_node (h1 ! parent)\<close> cast False
      have h': "h' = h1" and t': "t' = \<lparr>root = Some (length h)\<rparr>"
        by (auto simp: Put_def alloc_def cell' Let_def split: option.splits)
      have "Get h' t' k T = Inr None"
        using wk cast False by (simp add: Get_def Get_from_walk t' h')
      then show ?thesis using a tv False by auto
    qed
  qed
qed

section \<open>The result of Remove\<close>

text \<open>
  \<^verbatim>\<open>Remove\<close> returns the receiver exactly when the key leads to no node or to a plain
  \<^verbatim>\<open>TrieNode\<close>. Otherwise it returns a new root, from which the key still leads to a node,
  now with its flag off: the pruning loop erases nothing. In both cases a \<^verbatim>\<open>Get\<close> of
  the key in the result is null.
\<close>

lemma path_chain_frame:
  "path_chain h path nxt \<Longrightarrow> \<forall>a<nxt. children (h' ! a) = children (h ! a) \<Longrightarrow> path_chain h' path nxt"
  by (induction h path nxt rule: path_chain.induct) auto

lemma Remove_loop_shadow:
  assumes ok: "heap_ok h0" and len: "length h0 \<le> parent"
  shows "\<forall>a<length h0. h ! a = h0 ! a \<Longrightarrow> parent < length h \<Longrightarrow> ptr_ok h0 old \<Longrightarrow>
         \<forall>c. map_of (children (h ! parent)) c = walk h0 old [c] \<Longrightarrow>
         path_chain h path parent \<Longrightarrow>
         Remove_loop h parent path key = Some (h1, parent', path') \<Longrightarrow>
         length h \<le> length h1 \<and> (\<forall>a<length h. a \<noteq> parent \<longrightarrow> h1 ! a = h ! a) \<and>
         shadow h0 h1 old parent key \<and> walk h1 (Some parent) key = Some parent' \<and>
         path_chain h1 path' parent' \<and>
         (key = [] \<longrightarrow> path' = path) \<and>
         (key \<noteq> [] \<longrightarrow> (\<exists>prev rest. path' = (prev, last key) # rest \<and>
                          walk h1 (Some parent) (butlast key) = Some prev))"
  using len
proof (induction key arbitrary: h parent path old)
  case Nil
  then show ?case by auto
next
  case (Cons ch ks)
  from Cons.prems(6) obtain b where b: "map_of (children (h ! parent)) ch = Some b"
    by (auto split: option.splits)
  define cell where "cell = Clone (h ! b)"
  define h2 where "h2 = set_child (h @ [cell]) parent ch (length h)"
  have loop: "Remove_loop h2 (length h) ((parent, ch) # path) ks = Some (h1, parent', path')"
    using Cons.prems(6) b by (simp add: alloc_def cell_def h2_def)
  have h2_len: "length h2 = Suc (length h)" by (simp add: h2_def)
  have h2_nth: "h2 ! x = (if x = parent then (h ! parent)\<lparr>children := AList.update ch (length h) (children (h ! parent))\<rparr>
                            else (h @ [cell]) ! x)" for x
    using Cons.prems(2) by (simp add: h2_def nth_set_child nth_append)
  have agree2: "\<forall>a<length h0. h2 ! a = h0 ! a"
    using Cons.prems(1,2,7) by (simp add: h2_nth nth_append)
  have okc: "ptr_ok h0 (walk h0 old [ch])"
    using ok Cons.prems(3) by (rule ptr_ok_child)
  have kid: "walk h0 old [ch] = Some b"
    using Cons.prems(4) b by simp
  with okc have "b < length h0" by (simp add: ptr_ok_def)
  with Cons.prems(1) have hb: "h ! b = h0 ! b" by simp
  have cellkids: "map_of (children cell) c = walk h0 (walk h0 old [ch]) [c]" for c
    using kid hb by (simp add: cell_def)
  have new_cell: "h2 ! length h = cell"
    using Cons.prems(2) by (simp add: h2_nth)
  have ch2: "path_chain h2 ((parent, ch) # path) (length h)"
  proof -
    have "path_chain h2 path parent"
      by (rule path_chain_frame [OF Cons.prems(5)]) (use Cons.prems(2) in \<open>simp add: h2_nth nth_append\<close>)
    then show ?thesis using Cons.prems(2) by (simp add: h2_nth update_conv')
  qed
  have IH: "length h2 \<le> length h1 \<and> (\<forall>a<length h2. a \<noteq> length h \<longrightarrow> h1 ! a = h2 ! a) \<and>
    shadow h0 h1 (walk h0 old [ch]) (length h) ks \<and> walk h1 (Some (length h)) ks = Some parent' \<and>
    path_chain h1 path' parent' \<and> (ks = [] \<longrightarrow> path' = (parent, ch) # path) \<and>
    (ks \<noteq> [] \<longrightarrow> (\<exists>prev rest. path' = (prev, last ks) # rest \<and>
                      walk h1 (Some (length h)) (butlast ks) = Some prev))"
  proof (rule Cons.IH [OF agree2 _ okc _ ch2 loop])
    show "length h < length h2" by (simp add: h2_len)
    show "\<forall>c. map_of (children (h2 ! length h)) c = walk h0 (walk h0 old [ch]) [c]"
      using cellkids new_cell by simp
    show "length h0 \<le> length h" using Cons.prems(2,7) by simp
  qed
  have par: "h1 ! parent = h2 ! parent"
    using IH Cons.prems(2) by (simp add: h2_len)
  have par_kids: "map_of (children (h1 ! parent)) c = (if c = ch then Some (length h) else walk h0 old [c])" for c
    using Cons.prems(4) by (simp add: par h2_nth update_conv')
  have frame: "\<forall>a<length h. a \<noteq> parent \<longrightarrow> h1 ! a = h ! a"
  proof (intro allI impI)
    fix a assume a: "a < length h" "a \<noteq> parent"
    then have "h1 ! a = h2 ! a" using IH by (simp add: h2_len)
    also have "\<dots> = h ! a" using a by (simp add: h2_nth nth_append)
    finally show "h1 ! a = h ! a" .
  qed
  have sh: "shadow h0 h1 old parent (ch # ks)"
    using IH Cons.prems(2,7) par_kids by (simp add: h2_len)
  have wk: "walk h1 (Some parent) (ch # ks) = Some parent'"
    using IH par_kids by simp
  have pre: "\<exists>prev rest. path' = (prev, last (ch # ks)) # rest \<and>
                walk h1 (Some parent) (butlast (ch # ks)) = Some prev"
  proof (cases ks)
    case Nil
    then show ?thesis using IH by simp
  next
    case (Cons c' ks')
    then show ?thesis using IH par_kids by simp
  qed
  show ?case using IH frame sh wk pre by (simp add: h2_len)
qed

lemma Remove_prune_rest:
  "path_chain h ((prev, pc) # rest) nxt \<Longrightarrow> Remove_prune h rest = h"
  by (cases rest) auto

lemma Remove_loop_terminal:
  assumes ok: "heap_ok h0"
  shows "\<forall>a<length h0. h ! a = h0 ! a \<Longrightarrow> length h0 \<le> parent \<Longrightarrow> parent < length h \<Longrightarrow>
         o' < length h0 \<Longrightarrow> h ! parent = fresh_cell h0 (Some o') \<Longrightarrow>
         (case Remove_loop h parent path key of
            None \<Rightarrow> walk h0 (Some o') key = None
          | Some (h1, parent', path') \<Rightarrow>
              (\<exists>a. walk h0 (Some o') key = Some a) \<and>
              h1 ! parent' = fresh_cell h0 (walk h0 (Some o') key))"
proof (induction key arbitrary: h parent path o')
  case Nil
  then show ?case by simp
next
  case (Cons ch ks)
  have kid: "map_of (children (h ! parent)) ch = walk h0 (Some o') [ch]"
    using Cons.prems(5) by (simp add: children_fresh_cell)
  show ?case
  proof (cases "walk h0 (Some o') [ch]")
    case None
    then show ?thesis using kid by simp
  next
    case (Some b)
    define h2 where "h2 = set_child (h @ [Clone (h ! b)]) parent ch (length h)"
    have loop: "Remove_loop h parent path (ch # ks) = Remove_loop h2 (length h) ((parent, ch) # path) ks"
      using kid Some by (simp add: alloc_def h2_def)
    have b: "b < length h0"
      using heap_ok_child [OF ok Cons.prems(4), of ch b] Some by simp
    then have "h ! b = h0 ! b"
      using Cons.prems(1) by simp
    then have cell: "h2 ! length h = fresh_cell h0 (Some b)"
      using Cons.prems(3) by (simp add: h2_def nth_set_child fresh_cell_def)
    have eq: "walk h0 (Some o') (ch # ks) = walk h0 (Some b) ks"
      using Some by simp
    show ?thesis
      unfolding loop eq
    proof (rule Cons.IH [OF _ _ _ b cell])
      show "\<forall>a<length h0. h2 ! a = h0 ! a"
        using Cons.prems(1,2,3) by (simp add: h2_def nth_set_child nth_append)
      show "length h0 \<le> length h" using Cons.prems(2,3) by simp
      show "length h < length h2" by (simp add: h2_def)
    qed
  qed
qed

lemma Remove_result:
  assumes ok: "trie_ok h t" and rem: "Remove h t k = Inr (t', h')"
  shows "(\<forall>a<length h. h' ! a = h ! a) \<and>
         (t' = t \<and> h' = h \<and>
            (case walk h (root t) k of None \<Rightarrow> True | Some a \<Rightarrow> node_value (h ! a) = None) \<or>
          (\<exists>n. root t' = Some n \<and> shadow h h' (root t) n k \<and>
               (\<exists>b. walk h' (Some n) k = Some b \<and> \<not> is_value_node (h' ! b)) \<and>
               (\<exists>a tv. walk h (root t) k = Some a \<and> node_value (h ! a) = Some tv)))"
proof (cases "root t")
  case None
  then show ?thesis using rem by (simp add: Remove_def)
next
  case (Some cur)
  define cell where "cell = Clone (h ! cur)"
  have hok: "heap_ok h" and rok: "ptr_ok h (root t)" using ok by (simp_all add: trie_ok_def)
  have cur: "cur < length h"
    using rok Some by (simp add: ptr_ok_def)
  have cell: "(h @ [cell]) ! length h = fresh_cell h (Some cur)"
    by (simp add: cell_def fresh_cell_def)
  have T: "case Remove_loop (h @ [cell]) (length h) [] k of
             None \<Rightarrow> walk h (root t) k = None
           | Some (h1, parent', path') \<Rightarrow>
               (\<exists>a. walk h (root t) k = Some a) \<and> h1 ! parent' = fresh_cell h (walk h (root t) k)"
    unfolding Some
    by (rule Remove_loop_terminal [OF hok _ _ _ cur cell]) (simp_all add: nth_append)
  show ?thesis
  proof (cases "Remove_loop (h @ [cell]) (length h) [] k")
    case None
    then show ?thesis using rem Some T by (simp add: Remove_def alloc_def cell_def)
  next
    case (Some res)
    then obtain h1 parent path where loop: "Remove_loop (h @ [cell]) (length h) [] k = Some (h1, parent, path)"
      by (cases res) auto
    from T loop obtain a where a: "walk h (root t) k = Some a" and tcell: "h1 ! parent = fresh_cell h (Some a)"
      by auto
    have kids: "\<forall>c. map_of (children ((h @ [cell]) ! length h)) c = walk h (root t) [c]"
      using \<open>root t = Some cur\<close> by (simp add: cell_def)
    have L: "length (h @ [cell]) \<le> length h1 \<and> (\<forall>a<length (h @ [cell]). a \<noteq> length h \<longrightarrow> h1 ! a = (h @ [cell]) ! a) \<and>
         shadow h h1 (root t) (length h) k \<and> walk h1 (Some (length h)) k = Some parent \<and>
         path_chain h1 path parent \<and> (k = [] \<longrightarrow> path = []) \<and>
         (k \<noteq> [] \<longrightarrow> (\<exists>prev rest. path = (prev, last k) # rest \<and>
                          walk h1 (Some (length h)) (butlast k) = Some prev))"
      by (rule Remove_loop_shadow [OF hok _ _ _ rok kids _ loop]) (simp_all add: nth_append)
    then have agree1: "\<forall>a<length h. h1 ! a = h ! a" by (simp add: nth_append)
    have sh1: "shadow h h1 (root t) (length h) k" and wk: "walk h1 (Some (length h)) k = Some parent"
      and ch1: "path_chain h1 path parent"
      using L by simp_all
    from shadow_walk_on [OF sh1, of k] wk have par: "length h \<le> parent" "parent < length h1"
      using shadow_bounds by fastforce+
    show ?thesis
    proof (cases "is_value_node (h1 ! parent)")
      case False
      then have "node_value (h ! a) = None"
        using tcell by (cases "node_value (h ! a)") (auto simp: is_value_node_fresh_cell)
      with False show ?thesis
        using rem loop \<open>root t = Some cur\<close> a by (simp add: Remove_def alloc_def cell_def)
    next
      case True
      then have was: "\<exists>a tv. walk h (root t) k = Some a \<and> node_value (h ! a) = Some tv"
        using tcell a by (auto simp: is_value_node_fresh_cell)
      define h2 where "h2 = h1[parent := (h1 ! parent)\<lparr>is_value_node := False\<rparr>]"
      have h2_kids: "children (h2 ! a) = children (h1 ! a)" for a
        using par by (cases "a = parent") (simp_all add: h2_def)
      have h2_len: "length h2 = length h1" by (simp add: h2_def)
      have sh2: "shadow h h2 (root t) (length h) k"
        by (rule shadow_cong [OF sh1]) (simp_all add: h2_kids h2_len)
      have ch2: "path_chain h2 path parent"
        by (rule path_chain_frame [OF ch1]) (simp add: h2_kids)
      have wk2: "walk h2 (Some (length h)) q = walk h1 (Some (length h)) q" for q
        by (rule walk_same_children) (simp add: h2_kids)
      have off2: "\<not> is_value_node (h2 ! parent)"
        using par by (simp add: h2_def)
      have agree2: "\<forall>a<length h. h2 ! a = h ! a"
        using agree1 par by (simp add: h2_def)
      show ?thesis
      proof (cases "children (h2 ! parent) = []")
        case True
        with rem loop \<open>root t = Some cur\<close> \<open>is_value_node (h1 ! parent)\<close>
        obtain e rest where path: "path = e # rest" and t': "t' = \<lparr>root = Some (length h)\<rparr>"
          and h': "h' = Remove_prune h2 rest"
          by (auto simp: Remove_def alloc_def cell_def h2_def Let_def split: list.splits)
        have "Remove_prune h2 rest = h2"
          using ch2 path Remove_prune_rest [of h2 "fst e" "snd e" rest parent] by simp
        then show ?thesis using h' t' sh2 agree2 was wk wk2 off2 by auto
      next
        case False
        define P :: "('a, 'b) TrieNode" where "P = TrieNode_of (children (h2 ! parent))"
        have Poff: "\<not> is_value_node P" by (simp add: P_def TrieNode_of_def)
        show ?thesis
        proof (cases path)
          case Nil
          with rem loop \<open>root t = Some cur\<close> \<open>is_value_node (h1 ! parent)\<close> False
          have t': "t' = \<lparr>root = Some (length h2)\<rparr>" and h': "h' = h2 @ [P]"
            by (auto simp: Remove_def alloc_def cell_def h2_def P_def Let_def)
          from Nil L have k: "k = []" by auto
          with wk have p: "parent = length h" by simp
          have "children ((h2 @ [P]) ! length h2) = children (h2 ! parent)"
            by (simp add: P_def TrieNode_of_def)
          then have "shadow h (h2 @ [P]) (root t) (length h2) []"
            using sh2 k p par by (simp add: h2_len [symmetric])
          moreover have "\<forall>a<length h. (h2 @ [P]) ! a = h ! a"
            using agree2 par by (simp add: nth_append h2_len)
          ultimately show ?thesis using t' h' k was Poff by simp
        next
          case (Cons e rest)
          obtain prev pc where e: "e = (prev, pc)" by (cases e)
          let ?hs = "set_child (h2 @ [P]) prev pc (length h2)"
          from Cons e rem loop \<open>root t = Some cur\<close> \<open>is_value_node (h1 ! parent)\<close> False
          have t': "t' = \<lparr>root = Some (length h)\<rparr>" and h': "h' = Remove_prune ?hs path"
            by (auto simp: Remove_def alloc_def cell_def h2_def P_def Let_def)
          from Cons L have kne: "k \<noteq> []" by auto
          with L Cons e have pc: "pc = last k" and wp: "walk h1 (Some (length h)) (butlast k) = Some prev"
            by auto
          from ch2 Cons e have prev: "prev < parent" by simp
          from shadow_walk_on [OF sh1 prefixeq_butlast] wp have pb: "length h \<le> prev" by auto
          have lookup: "map_of (children (?hs ! prev)) pc = Some (length h2)"
            using prev par by (simp add: nth_set_child nth_append h2_len update_conv')
          have newc: "?hs ! length h2 = P"
            using prev par by (simp add: nth_set_child h2_len [symmetric])
          have "Remove_prune ?hs path = ?hs"
            using Cons e lookup newc False by (simp add: P_def TrieNode_of_def)
          with h' have h'': "h' = ?hs" by simp
          have "shadow h ?hs (root t) (length h) k"
            unfolding pc
            by (rule redirect_shadow [OF sh2 kne, of prev parent])
               (simp_all add: wk2 wp wk P_def TrieNode_of_def)
          moreover have "\<forall>a<length h. ?hs ! a = h ! a"
            using agree2 pb prev par by (simp add: nth_set_child nth_append h2_len)
          moreover have "walk ?hs (Some (length h)) k = Some (length h2)"
            unfolding pc by (rule redirect_walk [OF sh2 kne]) (simp add: wk2 wp)
          ultimately show ?thesis using t' h'' was newc Poff by simp
        qed
      qed
    qed
  qed
qed

lemma Remove_then_Get:
  assumes "trie_ok h t" and "Remove h t k = Inr (t', h')"
  shows "Get h' t' k T = Inr None"
  using Remove_result [OF assms]
  by (auto simp: Get_def Get_from_walk cast_with_value_def split: option.splits)

section \<open>Stores stay free of dangling pointers\<close>

text \<open>
  The empty store with the empty trie has no dangling pointer, and \<^verbatim>\<open>Put\<close> and
  \<^verbatim>\<open>Remove\<close> keep it so, for the trie they return and for the receiver.
\<close>

lemma empty_trie_ok: "trie_ok [] \<lparr>root = None\<rparr>"
  by (simp add: trie_ok_def heap_ok_def ptr_ok_def)

lemma heap_ok_iff:
  "heap_ok h \<longleftrightarrow> (\<forall>n\<in>set h. \<forall>cb\<in>set (children n). snd cb < length h)"
  by (simp add: heap_ok_def list_all_iff)

lemma set_update_le: "set (AList.update k v al) \<subseteq> insert (k, v) (set al)"
  by (induction al) auto

lemma set_delete_le: "set (AList.delete k al) \<subseteq> set al"
  by (auto simp: AList.delete_eq)

lemma heap_ok_alloc:
  "heap_ok h \<Longrightarrow> \<forall>cb\<in>set (children cell). snd cb < Suc (length h) \<Longrightarrow> heap_ok (h @ [cell])"
  by (fastforce simp: heap_ok_iff)

lemma heap_ok_Clone:
  "heap_ok h \<Longrightarrow> b < length h \<Longrightarrow> heap_ok (h @ [Clone (h ! b)])"
  by (rule heap_ok_alloc) (auto simp: heap_ok_iff dest: nth_mem less_SucI)

lemma heap_ok_default: "heap_ok h \<Longrightarrow> heap_ok (h @ [TrieNode_default])"
  by (rule heap_ok_alloc) (simp_all add: TrieNode_default_def)

lemma heap_ok_same_children:
  "heap_ok h \<Longrightarrow> a < length h \<Longrightarrow> children x = children (h ! a) \<Longrightarrow> heap_ok (h[a := x])"
  unfolding heap_ok_iff
  by (metis insert_iff length_list_update nth_mem set_update_subset_insert subsetD)

lemma heap_ok_set_child:
  assumes "heap_ok h" "a < length h" "b < length h"
  shows "heap_ok (set_child h a ch b)"
  unfolding heap_ok_iff
proof (intro ballI)
  fix n cb
  assume n: "n \<in> set (set_child h a ch b)" and cb: "cb \<in> set (children n)"
  from n have "n = (h ! a)\<lparr>children := AList.update ch b (children (h ! a))\<rparr> \<or> n \<in> set h"
    using set_update_subset_insert [of h a] by (auto simp: set_child_def)
  then show "snd cb < length (set_child h a ch b)"
  proof
    assume "n = (h ! a)\<lparr>children := AList.update ch b (children (h ! a))\<rparr>"
    with cb have "cb = (ch, b) \<or> cb \<in> set (children (h ! a))"
      using set_update_le [of ch b "children (h ! a)"] by auto
    then show ?thesis
      using assms by (auto simp: heap_ok_iff)
  next
    assume "n \<in> set h"
    then show ?thesis using assms(1) cb by (auto simp: heap_ok_iff)
  qed
qed

lemma heap_ok_erase_child:
  assumes "heap_ok h" "a < length h"
  shows "heap_ok (erase_child h a ch)"
  unfolding heap_ok_iff
proof (intro ballI)
  fix n cb
  assume n: "n \<in> set (erase_child h a ch)" and cb: "cb \<in> set (children n)"
  from n have "n = (h ! a)\<lparr>children := AList.delete ch (children (h ! a))\<rparr> \<or> n \<in> set h"
    using set_update_subset_insert [of h a] by (auto simp: erase_child_def)
  then show "snd cb < length (erase_child h a ch)"
  proof
    assume "n = (h ! a)\<lparr>children := AList.delete ch (children (h ! a))\<rparr>"
    with cb have "cb \<in> set (children (h ! a))"
      using set_delete_le [of ch "children (h ! a)"] by auto
    then show ?thesis
      using assms by (auto simp: heap_ok_iff erase_child_def)
  next
    assume "n \<in> set h"
    then show ?thesis using assms(1) cb by (auto simp: heap_ok_iff erase_child_def)
  qed
qed

lemma Put_loop_ok:
  "heap_ok h \<Longrightarrow> parent < length h \<Longrightarrow> ptr_ok h pre \<Longrightarrow>
   Put_loop h parent pre pc key = (h1, parent', pre', pc') \<Longrightarrow>
   heap_ok h1 \<and> parent' < length h1 \<and> ptr_ok h1 pre' \<and> length h \<le> length h1"
proof (induction key arbitrary: h parent pre pc)
  case Nil
  then show ?case by auto
next
  case (Cons ch ks)
  define cell :: "('a, 'b) TrieNode" where
    "cell = (case map_of (children (h ! parent)) ch of Some b \<Rightarrow> Clone (h ! b) | None \<Rightarrow> TrieNode_default)"
  define h2 where "h2 = set_child (h @ [cell]) parent ch (length h)"
  have loop: "Put_loop h2 (length h) (Some parent) ch ks = (h1, parent', pre', pc')"
    using Cons.prems(4) by (simp add: alloc_def cell_def h2_def)
  have "heap_ok (h @ [cell])"
    unfolding cell_def
    using Cons.prems(1,2) heap_ok_child [OF Cons.prems(1,2)]
    by (auto split: option.splits intro: heap_ok_Clone heap_ok_default)
  then have ok2: "heap_ok h2"
    unfolding h2_def using Cons.prems(2) by (intro heap_ok_set_child) simp_all
  have "heap_ok h1 \<and> parent' < length h1 \<and> ptr_ok h1 pre' \<and> length h2 \<le> length h1"
    by (rule Cons.IH [OF ok2 _ _ loop]) (use Cons.prems(2) in \<open>simp_all add: h2_def ptr_ok_def\<close>)
  then show ?case by (simp add: h2_def)
qed

lemma ptr_ok_mono: "ptr_ok h p \<Longrightarrow> length h \<le> length h' \<Longrightarrow> ptr_ok h' p"
  by (auto simp: ptr_ok_def split: option.splits)

lemma Put_trie_ok:
  assumes ok: "trie_ok h t" and put: "Put h t k T v = Inr (t', h')"
  shows "trie_ok h' t' \<and> trie_ok h' t"
proof -
  define cell :: "('a, 'b) TrieNode" where
    "cell = (case root t of Some r \<Rightarrow> Clone (h ! r) | None \<Rightarrow> TrieNode_default)"
  obtain h1 parent pre pc where loop: "Put_loop (h @ [cell]) (length h) None (CHR 0x00) k = (h1, parent, pre, pc)"
    by (cases "Put_loop (h @ [cell]) (length h) None (CHR 0x00) k") auto
  have hok: "heap_ok h" and rok: "ptr_ok h (root t)" using ok by (simp_all add: trie_ok_def)
  have ok0: "heap_ok (h @ [cell])"
    unfolding cell_def using hok rok
    by (auto simp: ptr_ok_def split: option.splits intro: heap_ok_Clone heap_ok_default)
  have L: "heap_ok h1 \<and> parent < length h1 \<and> ptr_ok h1 pre \<and> length (h @ [cell]) \<le> length h1"
    by (rule Put_loop_ok [OF ok0 _ _ loop]) (simp_all add: ptr_ok_def)
  have t': "root t' = Some (length h)"
    using put loop by (auto simp: Put_def alloc_def cell_def Let_def split: if_splits option.splits)
  have "heap_ok h' \<and> length h1 \<le> length h'"
  proof (cases "is_value_node (h1 ! parent)")
    case True
    from put loop True have "h' = h1[parent := (h1 ! parent)\<lparr>node_value := Some (T, v)\<rparr>] \<or> h' = h1"
      by (auto simp: Put_def alloc_def cell_def Let_def split: option.splits)
    then show ?thesis
      using L by (auto intro: heap_ok_same_children)
  next
    case False
    let ?cell = "TrieNodeWithValue (children (h1 ! parent)) T v :: ('a, 'b) TrieNode"
    from put loop False obtain p where p: "pre = Some p"
      and h': "h' = set_child (h1 @ [?cell]) p pc (length h1)"
      by (auto simp: Put_def alloc_def cell_def Let_def split: option.splits)
    have "heap_ok (h1 @ [?cell])"
      using L by (intro heap_ok_alloc) (auto simp: TrieNodeWithValue_def heap_ok_iff dest: nth_mem less_SucI)
    then show ?thesis
      unfolding h' using L p by (auto simp: ptr_ok_def intro!: heap_ok_set_child)
  qed
  then show ?thesis
    using L t' rok by (auto simp: trie_ok_def ptr_ok_def split: option.splits)
qed

lemma Remove_loop_ok:
  "heap_ok h \<Longrightarrow> parent < length h \<Longrightarrow> \<forall>e\<in>set path. fst e < length h \<Longrightarrow>
   Remove_loop h parent path key = Some (h1, parent', path') \<Longrightarrow>
   heap_ok h1 \<and> parent' < length h1 \<and> (\<forall>e\<in>set path'. fst e < length h1) \<and> length h \<le> length h1"
proof (induction key arbitrary: h parent path)
  case Nil
  then show ?case by auto
next
  case (Cons ch ks)
  from Cons.prems(4) obtain b where b: "map_of (children (h ! parent)) ch = Some b"
    by (auto split: option.splits)
  define h2 where "h2 = set_child (h @ [Clone (h ! b)]) parent ch (length h)"
  have loop: "Remove_loop h2 (length h) ((parent, ch) # path) ks = Some (h1, parent', path')"
    using Cons.prems(4) b by (simp add: alloc_def h2_def)
  have "heap_ok (h @ [Clone (h ! b)])"
    using Cons.prems(1) heap_ok_child [OF Cons.prems(1,2) b] by (rule heap_ok_Clone)
  then have ok2: "heap_ok h2"
    unfolding h2_def using Cons.prems(2) by (intro heap_ok_set_child) simp_all
  have "heap_ok h1 \<and> parent' < length h1 \<and> (\<forall>e\<in>set path'. fst e < length h1) \<and> length h2 \<le> length h1"
    by (rule Cons.IH [OF ok2 _ _ loop]) (use Cons.prems(2,3) in \<open>auto simp: h2_def\<close>)
  then show ?case by (simp add: h2_def)
qed

lemma length_erase_child [simp]: "length (erase_child h a ch) = length h"
  by (simp add: erase_child_def)

lemma Remove_prune_ok:
  "heap_ok h \<Longrightarrow> \<forall>e\<in>set path. fst e < length h \<Longrightarrow>
   heap_ok (Remove_prune h path) \<and> length (Remove_prune h path) = length h"
proof (induction h path rule: Remove_prune.induct)
  case (1 h)
  then show ?case by simp
next
  case (2 h node ch path)
  then show ?case
    by (auto split: option.splits simp: heap_ok_erase_child)
qed

lemma Remove_trie_ok:
  assumes ok: "trie_ok h t" and rem: "Remove h t k = Inr (t', h')"
  shows "trie_ok h' t' \<and> trie_ok h' t"
proof (cases "root t")
  case None
  then show ?thesis using rem ok by (simp add: Remove_def)
next
  case (Some cur)
  have hok: "heap_ok h" and cur: "cur < length h"
    using ok Some by (simp_all add: trie_ok_def ptr_ok_def)
  have ok0: "heap_ok (h @ [Clone (h ! cur)])"
    using hok cur by (rule heap_ok_Clone)
  show ?thesis
  proof (cases "Remove_loop (h @ [Clone (h ! cur)]) (length h) [] k")
    case None
    then show ?thesis using rem Some ok by (simp add: Remove_def alloc_def)
  next
    case (Some res)
    then obtain h1 parent path where
      loop: "Remove_loop (h @ [Clone (h ! cur)]) (length h) [] k = Some (h1, parent, path)"
      by (cases res) auto
    have L: "heap_ok h1 \<and> parent < length h1 \<and> (\<forall>e\<in>set path. fst e < length h1) \<and>
             length (h @ [Clone (h ! cur)]) \<le> length h1"
      by (rule Remove_loop_ok [OF ok0 _ _ loop]) simp_all
    show ?thesis
    proof (cases "is_value_node (h1 ! parent)")
      case False
      then show ?thesis
        using rem loop \<open>root t = Some cur\<close> ok by (simp add: Remove_def alloc_def)
    next
      case True
      define h2 where "h2 = h1[parent := (h1 ! parent)\<lparr>is_value_node := False\<rparr>]"
      have ok2: "heap_ok h2" and len2: "length h2 = length h1"
        using L by (auto simp: h2_def intro: heap_ok_same_children)
      define P :: "('a, 'b) TrieNode" where "P = TrieNode_of (children (h2 ! parent))"
      have "h2 ! parent \<in> set h2"
        using L by (simp add: len2)
      then have ok3: "heap_ok (h2 @ [P])"
        using ok2 by (intro heap_ok_alloc) (auto simp: P_def TrieNode_of_def heap_ok_iff dest: less_SucI)
      have "heap_ok h' \<and> length h1 \<le> length h' \<and> ptr_ok h' (root t')"
      proof (cases "children (h2 ! parent) = []")
        case True
        with rem loop \<open>root t = Some cur\<close> \<open>is_value_node (h1 ! parent)\<close>
        obtain e rest where path: "path = e # rest" and t': "t' = \<lparr>root = Some (length h)\<rparr>"
          and h': "h' = Remove_prune h2 rest"
          by (auto simp: Remove_def alloc_def h2_def Let_def split: list.splits)
        have "\<forall>e\<in>set rest. fst e < length h2"
          using L path by (simp add: len2)
        from Remove_prune_ok [OF ok2 this] show ?thesis
          using L h' t' by (simp add: len2 ptr_ok_def)
      next
        case False
        show ?thesis
        proof (cases path)
          case Nil
          with rem loop \<open>root t = Some cur\<close> \<open>is_value_node (h1 ! parent)\<close> False
          have "t' = \<lparr>root = Some (length h2)\<rparr>" and "h' = h2 @ [P]"
            by (auto simp: Remove_def alloc_def h2_def P_def Let_def)
          then show ?thesis using ok3 by (simp add: len2 ptr_ok_def)
        next
          case (Cons e rest)
          obtain prev pc where e: "e = (prev, pc)" by (cases e)
          let ?hs = "set_child (h2 @ [P]) prev pc (length h2)"
          from Cons e rem loop \<open>root t = Some cur\<close> \<open>is_value_node (h1 ! parent)\<close> False
          have t': "t' = \<lparr>root = Some (length h)\<rparr>" and h': "h' = Remove_prune ?hs path"
            by (auto simp: Remove_def alloc_def h2_def P_def Let_def)
          have "prev < length h1" using L Cons e by simp
          then have oks: "heap_ok ?hs"
            using ok3 by (intro heap_ok_set_child) (simp_all add: len2)
          have "\<forall>e\<in>set path. fst e < length ?hs"
            using L by (auto simp: len2)
          from Remove_prune_ok [OF oks this] show ?thesis
            using L h' t' by (simp add: len2 ptr_ok_def)
        qed
      qed
      then show ?thesis
        using L ok \<open>root t = Some cur\<close> cur by (auto simp: trie_ok_def ptr_ok_def)
    qed
  qed
qed

section \<open>Running the model on a given input\<close>

lemmas run =
  Put_def Remove_def Get_def alloc_def set_child_def erase_child_def Clone_def
  TrieNode_default_def TrieNode_of_def TrieNodeWithValue_def cast_with_value_def map_at_def
  TrieStore_init_def TrieStore_Put_def TrieStore_Remove_def get_version_def snapshots_back_def
  Let_def

section \<open>The store's version counter\<close>

text \<open>No call of the store changes what \<^verbatim>\<open>get_version()\<close> returns.\<close>

lemma version_is_never_written:
  "TrieStore_Put h s k T v = Inr (r, h', s') \<Longrightarrow> r = get_version s \<and> get_version s' = get_version s"
  "TrieStore_Remove h s k = Inr (r, h', s') \<Longrightarrow> r = get_version s \<and> get_version s' = get_version s"
  by (auto simp: TrieStore_Put_def TrieStore_Remove_def get_version_def Let_def
      split: sum.splits prod.splits if_splits)

text \<open>
  C1. Claimed: \<^verbatim>\<open>get_version()\<close> is the index of the newest snapshot, every
  \<^verbatim>\<open>TrieStore::Put\<close> and every \<^verbatim>\<open>TrieStore::Remove\<close> of a key that held a value
  raises it by one and returns the new number. In the source \<^verbatim>\<open>get_version()\<close> loads
  \<^verbatim>\<open>version_\<close>, and no statement stores to \<^verbatim>\<open>version_\<close>. Evaluated on a fresh store,
  whatever \<open>v0\<close> its counter starts with: \<^verbatim>\<open>Put("a", v)\<close> appends the snapshot, so the
  newest index goes from 0 to 1, and it returns \<open>v0\<close>, which \<^verbatim>\<open>get_version()\<close> was
  before the call and still is after it.
\<close>

theorem C1_put_returns_the_version_it_found:
  "TrieStore_Put [] (TrieStore_init v0) ''a'' T v =
     Inr (v0,
          [TrieNode_of [(CHR ''a'', 2)], TrieNode_default, TrieNodeWithValue [] T v],
          \<lparr>version = v0, snapshots = [\<lparr>root = None\<rparr>, \<lparr>root = Some 0\<rparr>]\<rparr>) \<and>
   get_version (TrieStore_init v0) = v0 \<and>
   get_version \<lparr>version = v0, snapshots = [\<lparr>root = None\<rparr>, \<lparr>root = Some 0\<rparr>]\<rparr> = v0 \<and>
   length (snapshots (TrieStore_init v0)) - 1 = 0 \<and>
   length (snapshots \<lparr>version = v0, snapshots = [\<lparr>root = None\<rparr>, \<lparr>root = Some 0\<rparr>]\<rparr>) - 1 = 1"
  by (simp add: run)

section \<open>Put\<close>

text \<open>
  C2. Claimed: \<^verbatim>\<open>t.Put(k, v).Get(k)\<close> is \<open>v\<close> for every trie, key and value, also when
  \<open>k\<close> already holds a value of any type. In the source, when the cloned terminal node is
  a value node, \<^verbatim>\<open>Put<T>\<close> casts it to \<^verbatim>\<open>TrieNodeWithValue<T>\<close> and stores the value
  only if the cast succeeds; for a node of another type nothing is stored. Evaluated:
  \<^verbatim>\<open>Put<int>("a", 1)\<close> on the empty trie, then \<^verbatim>\<open>Put<string>("a", "x")\<close>; in the
  result \<^verbatim>\<open>Get<string>("a")\<close> is null and \<^verbatim>\<open>Get<int>("a")\<close> is still 1.
  By \<open>Put_then_Get\<close> a node of another type at the key is the only way a \<^verbatim>\<open>Put\<close>
  that returns fails the round trip.
\<close>

theorem C2_put_of_another_type_is_dropped:
  "(case Put [] \<lparr>root = None\<rparr> ''a'' ''int'' (Inl (1 :: int)) of
      Inl e \<Rightarrow> None
    | Inr (t1, h1) \<Rightarrow>
        (case Put h1 t1 ''a'' ''string'' (Inr ''x'') of
           Inl e \<Rightarrow> None
         | Inr (t2, h2) \<Rightarrow> Some (Get h2 t2 ''a'' ''string'', Get h2 t2 ''a'' ''int'')))
   = Some (Inr None, Inr (Some (Inl 1)))"
  by (simp add: run)

text \<open>
  C3. Claimed: \<^verbatim>\<open>Trie::Put\<close> accepts the empty key on every trie and stores the value in
  the root. In the source the loop body, the only place that sets \<^verbatim>\<open>pre\<close>, does not run
  for an empty key, and the branch for a terminal node without a value then writes through
  \<^verbatim>\<open>pre\<close>, a null pointer. Evaluated on the empty trie in any store, and on the trie that
  holds one key \<^verbatim>\<open>"a"\<close>.
\<close>

theorem C3_put_with_the_empty_key_faults:
  "Put h \<lparr>root = None\<rparr> [] T v = Inl NullPointerDereference \<and>
   Put [TrieNode_of [(CHR ''a'', 2)], TrieNode_default, TrieNodeWithValue [] T' v']
       \<lparr>root = Some 0\<rparr> [] T v = Inl NullPointerDereference"
  by (simp add: run)

section \<open>Remove\<close>

text \<open>
  C4. Claimed: when \<^verbatim>\<open>Trie::Remove\<close> clears the value of a childless terminal node, the
  node is detached from its parent and the valueless, childless ancestors are pruned; removing
  the last key leaves an empty-equivalent trie. In the source the childless branch does
  \<^verbatim>\<open>path.pop_back()\<close>, which drops the very entry (parent, character) that leads to the
  terminal node, so the pruning loop never looks at it, and stops at once at the parent, which
  still has that child. Evaluated: removing \<^verbatim>\<open>"a"\<close> from the trie that holds only
  \<^verbatim>\<open>"a"\<close> gives a root (cell 3) that still has the child \<^verbatim>\<open>'a'\<close>, cell 4, without
  children and with the flag cleared. And the spec's scenario \<^verbatim>\<open>put("a", 1)\<close>,
  \<^verbatim>\<open>put("ab", 2)\<close>, \<^verbatim>\<open>remove("ab")\<close>, \<^verbatim>\<open>remove("a")\<close> ends in a trie whose root
  still leads along \<^verbatim>\<open>"a"\<close> and \<^verbatim>\<open>"ab"\<close> to cells. By \<open>Remove_result\<close> it is so
  for every removal that returns a new trie: the key still leads to a node in it.
\<close>

theorem C4_remove_keeps_the_dead_leaf:
  "Remove [TrieNode_of [(CHR ''a'', 2)], TrieNode_default, TrieNodeWithValue [] T v]
          \<lparr>root = Some 0\<rparr> ''a'' =
     Inr (\<lparr>root = Some 3\<rparr>,
          [TrieNode_of [(CHR ''a'', 2)], TrieNode_default, TrieNodeWithValue [] T v,
           TrieNode_of [(CHR ''a'', 4)],
           (TrieNodeWithValue [] T v)\<lparr>is_value_node := False\<rparr>]) \<and>
   (case Put [] \<lparr>root = None\<rparr> ''a'' ''int'' (1 :: int) of
      Inl e \<Rightarrow> None
    | Inr (t1, h1) \<Rightarrow>
        (case Put h1 t1 ''ab'' ''int'' 2 of
           Inl e \<Rightarrow> None
         | Inr (t2, h2) \<Rightarrow>
             (case Remove h2 t2 ''ab'' of
                Inl e \<Rightarrow> None
              | Inr (t3, h3) \<Rightarrow>
                  (case Remove h3 t3 ''a'' of
                     Inl e \<Rightarrow> None
                   | Inr (t4, h4) \<Rightarrow>
                       Some (walk h3 (root t3) ''ab'', t4,
                             walk h4 (root t4) ''a'', walk h4 (root t4) ''ab'')))))
   = Some (Some 9, \<lparr>root = Some 10\<rparr>, Some 12, Some 9)"
  by (simp add: run)

text \<open>
  C6. Claimed: \<^verbatim>\<open>Trie::Remove\<close> returns the receiver (same root) exactly when the trie is
  empty, the path of the key does not fully exist, or the terminal node carries no value; and
  \<^verbatim>\<open>TrieStore::Remove\<close> appends a snapshot exactly when the result is not the newest
  snapshot. The second part is what the source does. The first fails on the tries that an
  earlier \<^verbatim>\<open>Remove\<close> leaves behind (see C4 and C8, the same defect): the dead leaf is a
  \<^verbatim>\<open>TrieNodeWithValue\<close> whose flag is off, \<^verbatim>\<open>Clone\<close> turns the flag on again, and
  \<^verbatim>\<open>Remove\<close> tests the flag of the clone. Evaluated in the store that \<^verbatim>\<open>Put<T>("a", v)\<close>
  and \<^verbatim>\<open>Remove("a")\<close> leave, on the trie with root 3: the terminal node of \<^verbatim>\<open>"a"\<close>
  is cell 4, its flag is off, \<^verbatim>\<open>Get\<close> finds nothing, and \<^verbatim>\<open>Remove("a")\<close> returns a
  trie with the new root 5; the store on top appends it.
\<close>

theorem C6_remove_of_a_valueless_key_returns_a_new_root:
  "walk [TrieNode_of [(CHR ''a'', 2)], TrieNode_default, TrieNodeWithValue [] T v,
         TrieNode_of [(CHR ''a'', 4)], (TrieNodeWithValue [] T v)\<lparr>is_value_node := False\<rparr>]
        (Some 3) ''a'' = Some 4 \<and>
   \<not> is_value_node
        ([TrieNode_of [(CHR ''a'', 2)], TrieNode_default, TrieNodeWithValue [] T v,
          TrieNode_of [(CHR ''a'', 4)], (TrieNodeWithValue [] T v)\<lparr>is_value_node := False\<rparr>] ! 4) \<and>
   Get [TrieNode_of [(CHR ''a'', 2)], TrieNode_default, TrieNodeWithValue [] T v,
        TrieNode_of [(CHR ''a'', 4)], (TrieNodeWithValue [] T v)\<lparr>is_value_node := False\<rparr>]
       \<lparr>root = Some 3\<rparr> ''a'' T' = Inr None \<and>
   Remove [TrieNode_of [(CHR ''a'', 2)], TrieNode_default, TrieNodeWithValue [] T v,
           TrieNode_of [(CHR ''a'', 4)], (TrieNodeWithValue [] T v)\<lparr>is_value_node := False\<rparr>]
          \<lparr>root = Some 3\<rparr> ''a'' =
     Inr (\<lparr>root = Some 5\<rparr>,
          [TrieNode_of [(CHR ''a'', 2)], TrieNode_default, TrieNodeWithValue [] T v,
           TrieNode_of [(CHR ''a'', 4)], (TrieNodeWithValue [] T v)\<lparr>is_value_node := False\<rparr>,
           TrieNode_of [(CHR ''a'', 6)], (TrieNodeWithValue [] T v)\<lparr>is_value_node := False\<rparr>]) \<and>
   TrieStore_Remove
       [TrieNode_of [(CHR ''a'', 2)], TrieNode_default, TrieNodeWithValue [] T v,
        TrieNode_of [(CHR ''a'', 4)], (TrieNodeWithValue [] T v)\<lparr>is_value_node := False\<rparr>]
       \<lparr>version = v0, snapshots = [\<lparr>root = None\<rparr>, \<lparr>root = Some 0\<rparr>, \<lparr>root = Some 3\<rparr>]\<rparr> ''a'' =
     Inr (v0,
          [TrieNode_of [(CHR ''a'', 2)], TrieNode_default, TrieNodeWithValue [] T v,
           TrieNode_of [(CHR ''a'', 4)], (TrieNodeWithValue [] T v)\<lparr>is_value_node := False\<rparr>,
           TrieNode_of [(CHR ''a'', 6)], (TrieNodeWithValue [] T v)\<lparr>is_value_node := False\<rparr>],
          \<lparr>version = v0,
             snapshots = [\<lparr>root = None\<rparr>, \<lparr>root = Some 0\<rparr>, \<lparr>root = Some 3\<rparr>, \<lparr>root = Some 5\<rparr>]\<rparr>)"
  by (simp add: run)

text \<open>
  C8. Claimed: \<^verbatim>\<open>t.Remove(k).Remove(k)\<close> is reference-equal to \<^verbatim>\<open>t.Remove(k)\<close>.
  Evaluated from the empty trie: \<^verbatim>\<open>Put<int>("a", 1)\<close>, \<^verbatim>\<open>Remove("a")\<close>,
  \<^verbatim>\<open>Remove("a")\<close>. After the first removal \<^verbatim>\<open>Get<int>("a")\<close> is null; the first
  removal returns the trie with root 3, the second one the trie with root 5. The defect is the
  one of C4 and C6: the first removal leaves the dead leaf in place, and the second clones it
  back into a value node.
\<close>

theorem C8_second_remove_returns_another_root:
  "(case Put [] \<lparr>root = None\<rparr> ''a'' ''int'' (1 :: int) of
      Inl e \<Rightarrow> None
    | Inr (t1, h1) \<Rightarrow>
        (case Remove h1 t1 ''a'' of
           Inl e \<Rightarrow> None
         | Inr (t2, h2) \<Rightarrow>
             (case Remove h2 t2 ''a'' of
                Inl e \<Rightarrow> None
              | Inr (t3, h3) \<Rightarrow> Some (Get h2 t2 ''a'' ''int'', t2, t3, t3 = t2))))
   = Some (Inr None, \<lparr>root = Some 3\<rparr>, \<lparr>root = Some 5\<rparr>, False)"
  by (simp add: run)

section \<open>Get\<close>

text \<open>
  C9. \<^verbatim>\<open>Trie::Get<T>\<close> never faults, and its result is null whenever the root is null,
  some character of the key has no matching child (the key is \<open>p @ c # s\<close>, the walk along
  \<open>p\<close> ends in cell \<open>a\<close>, and \<open>a\<close> has no child for \<open>c\<close>), the terminal node \<open>b\<close> has
  its flag off, or the terminal node holds a value of a type \<open>T'\<close> other than the \<open>T\<close>
  asked for. The last case gives the same result as a missing key.
\<close>

theorem C9_get_is_null_and_never_faults:
  "Get h t k T \<noteq> Inl e \<and>
   (root t = None \<longrightarrow> Get h t k T = Inr None) \<and>
   (k = p @ c # s \<and> walk h (root t) p = Some a \<and> map_of (children (h ! a)) c = None
      \<longrightarrow> Get h t k T = Inr None) \<and>
   (walk h (root t) k = Some b \<and> \<not> is_value_node (h ! b) \<longrightarrow> Get h t k T = Inr None) \<and>
   (walk h (root t) k = Some b \<and> node_value (h ! b) = Some (T', v) \<and> T' \<noteq> T
      \<longrightarrow> Get h t k T = Inr None)"
  by (auto simp: Get_def Get_from_walk walk_append cast_with_value_def split: option.splits)

theorem C9_get_is_null_and_never_faults_witness:
  "Get [TrieNode_of [(CHR ''a'', 2)], TrieNode_default, TrieNodeWithValue [] ''int'' (1 :: int)]
       \<lparr>root = None\<rparr> ''a'' ''int'' = Inr None \<and>
   walk [TrieNode_of [(CHR ''a'', 2)], TrieNode_default, TrieNodeWithValue [] ''int'' (1 :: int)]
        (Some 0) ''a'' = Some 2 \<and>
   map_of (children ([TrieNode_of [(CHR ''a'', 2)], TrieNode_default,
                      TrieNodeWithValue [] ''int'' (1 :: int)] ! 2)) (CHR ''b'') = None \<and>
   Get [TrieNode_of [(CHR ''a'', 2)], TrieNode_default, TrieNodeWithValue [] ''int'' (1 :: int)]
       \<lparr>root = Some 0\<rparr> ''ab'' ''int'' = Inr None \<and>
   \<not> is_value_node ([TrieNode_of [(CHR ''a'', 2)], TrieNode_default,
                      TrieNodeWithValue [] ''int'' (1 :: int)] ! 0) \<and>
   Get [TrieNode_of [(CHR ''a'', 2)], TrieNode_default, TrieNodeWithValue [] ''int'' (1 :: int)]
       \<lparr>root = Some 0\<rparr> [] ''int'' = Inr None \<and>
   node_value ([TrieNode_of [(CHR ''a'', 2)], TrieNode_default,
                TrieNodeWithValue [] ''int'' (1 :: int)] ! 2) = Some (''int'', 1) \<and>
   Get [TrieNode_of [(CHR ''a'', 2)], TrieNode_default, TrieNodeWithValue [] ''int'' (1 :: int)]
       \<lparr>root = Some 0\<rparr> ''a'' ''string'' = Inr None"
proof -
  define h :: "(string, int) heap" where
    "h = [TrieNode_of [(CHR ''a'', 2)], TrieNode_default, TrieNodeWithValue [] ''int'' 1]"
  define t where "t = \<lparr>root = Some (0 :: nat)\<rparr>"
  have rt: "root t = Some 0"
    by (simp add: t_def)
  have null_root: "root \<lparr>root = None\<rparr> = None"
    by simp
  have split_key: "''ab'' = ''a'' @ CHR ''b'' # []"
    by simp
  have w_a: "walk h (Some 0) ''a'' = Some 2"
    by (simp add: h_def TrieNode_of_def)
  have no_b: "map_of (children (h ! 2)) (CHR ''b'') = None"
    by (simp add: h_def TrieNodeWithValue_def)
  have w_nil: "walk h (Some 0) [] = Some 0"
    by simp
  have flag_off: "\<not> is_value_node (h ! 0)"
    by (simp add: h_def TrieNode_of_def)
  have holds_int: "node_value (h ! 2) = Some (''int'', 1)"
    by (simp add: h_def TrieNodeWithValue_def)
  have other: "''int'' \<noteq> ''string''"
    by simp
  have g1: "Get h \<lparr>root = None\<rparr> ''a'' ''int'' = Inr None"
    using C9_get_is_null_and_never_faults [of h "\<lparr>root = None\<rparr>" "''a''" "''int''"] null_root
    by blast
  have g2: "Get h t ''ab'' ''int'' = Inr None"
    using C9_get_is_null_and_never_faults [of h t "''ab''" "''int''" _ "''a''" "CHR ''b''" "[]" 2]
      split_key w_a no_b
    unfolding rt by blast
  have g3: "Get h t [] ''int'' = Inr None"
    using C9_get_is_null_and_never_faults [of h t "[]" "''int''" _ _ _ _ _ 0] w_nil flag_off
    unfolding rt by blast
  have g4: "Get h t ''a'' ''string'' = Inr None"
    using C9_get_is_null_and_never_faults [of h t "''a''" "''string''" _ _ _ _ _ 2 "''int''" 1]
      w_a holds_int other
    unfolding rt by blast
  show ?thesis
    using g1 w_a no_b g2 flag_off g3 holds_int g4
    unfolding h_def t_def by (intro conjI)
qed

section \<open>The receiver of Put and Remove\<close>

text \<open>
  C5. Let the store have no dangling pointer and let \<^verbatim>\<open>t.Put(k, v)\<close> or
  \<^verbatim>\<open>t.Remove(k)\<close> return the trie \<open>t'\<close> in the store \<open>h'\<close>. Then no cell that existed
  before the call has changed, so \<^verbatim>\<open>t.Get(q)\<close> gives for every key \<open>q\<close> and type what it
  gave before; and for every \<open>q\<close> that is not a prefix of \<open>k\<close>, that is for every node off
  the path to \<open>k\<close>, the result reaches along \<open>q\<close> the very cell that \<open>t\<close> reaches (or none
  where \<open>t\<close> reaches none): the subtree is shared, not copied. The hypothesis on the store
  holds of the empty trie and is kept by every call (\<open>Put_trie_ok\<close>, \<open>Remove_trie_ok\<close>).
\<close>

theorem C5_receiver_unchanged_and_subtrees_shared:
  assumes "trie_ok h t"
    and "Put h t k T v = Inr (t', h') \<or> Remove h t k = Inr (t', h')"
  shows "(\<forall>a<length h. h' ! a = h ! a) \<and>
         Get h' t q T' = Get h t q T' \<and>
         (\<not> prefix q k \<longrightarrow> walk h' (root t') q = walk h (root t) q)"
proof -
  have hok: "heap_ok h" and rok: "ptr_ok h (root t)"
    using assms(1) by (simp_all add: trie_ok_def)
  have S: "(\<forall>a<length h. h' ! a = h ! a) \<and>
           (t' = t \<and> h' = h \<or> (\<exists>n. root t' = Some n \<and> shadow h h' (root t) n k))"
    using assms(2) Put_shadow [OF assms(1)] Remove_result [OF assms(1)] by blast
  then have agree: "\<forall>a<length h. h' ! a = h ! a" by simp
  have get: "Get h' t q T' = Get h t q T'"
    unfolding Get_def by (rule Get_from_agree [OF hok agree rok])
  have share: "walk h' (root t') q = walk h (root t) q" if np: "\<not> prefix q k"
  proof -
    from S consider "t' = t" "h' = h" | n where "root t' = Some n" "shadow h h' (root t) n k"
      by blast
    then show ?thesis
    proof cases
      case 1
      then show ?thesis by simp
    next
      case 2
      then show ?thesis
        using shadow_walk_off [OF hok agree rok _ np] by simp
    qed
  qed
  show ?thesis using agree get share by blast
qed

theorem C5_receiver_unchanged_and_subtrees_shared_witness:
  "trie_ok [TrieNode_of [(CHR ''a'', 2)], TrieNode_default, TrieNodeWithValue [] ''int'' (1 :: int),
            TrieNode_of [(CHR ''a'', 2), (CHR ''b'', 5)], TrieNode_default,
            TrieNodeWithValue [] ''int'' 2]
           \<lparr>root = Some 3\<rparr> \<and>
   (case Put [TrieNode_of [(CHR ''a'', 2)], TrieNode_default, TrieNodeWithValue [] ''int'' (1 :: int),
              TrieNode_of [(CHR ''a'', 2), (CHR ''b'', 5)], TrieNode_default,
              TrieNodeWithValue [] ''int'' 2]
             \<lparr>root = Some 3\<rparr> ''ac'' ''int'' 3 of
      Inl e \<Rightarrow> False
    | Inr (t', h') \<Rightarrow>
        t' = \<lparr>root = Some 6\<rparr> \<and>
        Get h' \<lparr>root = Some 3\<rparr> ''a'' ''int'' = Inr (Some 1) \<and>
        Get h' \<lparr>root = Some 3\<rparr> ''ac'' ''int'' = Inr None \<and>
        walk h' (root t') ''b'' = Some 5 \<and>
        walk h' (root t') ''a'' = Some 7) \<and>
   (case Remove [TrieNode_of [(CHR ''a'', 2)], TrieNode_default, TrieNodeWithValue [] ''int'' (1 :: int),
                 TrieNode_of [(CHR ''a'', 2), (CHR ''b'', 5)], TrieNode_default,
                 TrieNodeWithValue [] ''int'' 2]
                \<lparr>root = Some 3\<rparr> ''a'' of
      Inl e \<Rightarrow> False
    | Inr (t', h') \<Rightarrow>
        t' = \<lparr>root = Some 6\<rparr> \<and>
        Get h' \<lparr>root = Some 3\<rparr> ''a'' ''int'' = Inr (Some 1) \<and>
        walk h' (root t') ''b'' = Some 5 \<and>
        walk h' (root t') ''a'' = Some 7)"
proof -
  define h :: "(string, int) heap" where
    "h = [TrieNode_of [(CHR ''a'', 2)], TrieNode_default, TrieNodeWithValue [] ''int'' 1,
          TrieNode_of [(CHR ''a'', 2), (CHR ''b'', 5)], TrieNode_default,
          TrieNodeWithValue [] ''int'' 2]"
  define t where "t = \<lparr>root = Some (3 :: nat)\<rparr>"
  define hp :: "(string, int) heap" where
    "hp = h @ [TrieNode_of [(CHR ''a'', 7), (CHR ''b'', 5)],
               TrieNodeWithValue [(CHR ''c'', 9)] ''int'' 1, TrieNode_default,
               TrieNodeWithValue [] ''int'' 3]"
  define hr :: "(string, int) heap" where
    "hr = h @ [TrieNode_of [(CHR ''a'', 7), (CHR ''b'', 5)],
               (TrieNodeWithValue [] ''int'' 1)\<lparr>is_value_node := False\<rparr>]"
  have ok: "trie_ok h t"
    by (simp add: trie_ok_def heap_ok_def ptr_ok_def h_def t_def TrieNode_of_def
        TrieNode_default_def TrieNodeWithValue_def)
  have put: "Put h t ''ac'' ''int'' 3 = Inr (\<lparr>root = Some 6\<rparr>, hp)"
    by (simp add: run h_def hp_def t_def)
  have rem: "Remove h t ''a'' = Inr (\<lparr>root = Some 6\<rparr>, hr)"
    by (simp add: run h_def hr_def t_def)
  have before: "Get h t ''a'' ''int'' = Inr (Some 1)" "Get h t ''ac'' ''int'' = Inr None"
    "walk h (root t) ''b'' = Some 5"
    by (simp_all add: run h_def t_def)
  have off: "\<not> prefix ''b'' ''ac''" "\<not> prefix ''b'' ''a''"
    by simp_all
  have "Get hp t ''a'' ''int'' = Inr (Some 1)"
    using C5_receiver_unchanged_and_subtrees_shared [OF ok disjI1 [OF put], of "''a''" "''int''"]
      before by simp
  moreover have "Get hp t ''ac'' ''int'' = Inr None"
    using C5_receiver_unchanged_and_subtrees_shared [OF ok disjI1 [OF put], of "''ac''" "''int''"]
      before by simp
  moreover have "walk hp (Some 6) ''b'' = Some 5"
    using C5_receiver_unchanged_and_subtrees_shared [OF ok disjI1 [OF put], of "''b''" "''int''"]
      before off by simp
  moreover have "Get hr t ''a'' ''int'' = Inr (Some 1)"
    using C5_receiver_unchanged_and_subtrees_shared [OF ok disjI2 [OF rem], of "''a''" "''int''"]
      before by simp
  moreover have "walk hr (Some 6) ''b'' = Some 5"
    using C5_receiver_unchanged_and_subtrees_shared [OF ok disjI2 [OF rem], of "''b''" "''int''"]
      before off by simp
  moreover have "walk hp (Some 6) ''a'' = Some 7" "walk hr (Some 6) ''a'' = Some 7"
    by (simp_all add: hp_def hr_def h_def TrieNode_of_def)
  ultimately show ?thesis
    using ok put rem by (simp add: h_def t_def)
qed

section \<open>The snapshot sequence\<close>

text \<open>
  C7. A new store holds exactly one snapshot, the empty trie. A \<^verbatim>\<open>TrieStore::Put\<close> that
  returns found the sequence non-empty and leaves it with one entry added at the end; a
  \<^verbatim>\<open>TrieStore::Remove\<close> that returns found it non-empty and leaves it as it was or with one
  entry added at the end. \<^verbatim>\<open>TrieStore::Get\<close> and \<^verbatim>\<open>get_version\<close> assign nothing.
\<close>

theorem C7_snapshots_start_with_one_and_only_grow:
  "snapshots (TrieStore_init v0) = [\<lparr>root = None\<rparr>] \<and>
   (TrieStore_Put h s k T v = Inr (r, h', s') \<longrightarrow>
      snapshots s \<noteq> [] \<and> (\<exists>t'. snapshots s' = snapshots s @ [t'])) \<and>
   (TrieStore_Remove h s k = Inr (r, h', s') \<longrightarrow>
      snapshots s \<noteq> [] \<and>
      (snapshots s' = snapshots s \<or> (\<exists>t'. snapshots s' = snapshots s @ [t'])))"
  by (auto simp: TrieStore_init_def TrieStore_Put_def TrieStore_Remove_def snapshots_back_def
        Let_def
      split: sum.splits list.splits prod.splits if_splits)

theorem C7_snapshots_start_with_one_and_only_grow_witness:
  "TrieStore_Put [] (TrieStore_init 0) ''a'' ''int'' (1 :: int) =
     Inr (0, [TrieNode_of [(CHR ''a'', 2)], TrieNode_default, TrieNodeWithValue [] ''int'' 1],
          \<lparr>version = 0, snapshots = [\<lparr>root = None\<rparr>, \<lparr>root = Some 0\<rparr>]\<rparr>) \<and>
   snapshots (TrieStore_init 0) \<noteq> [] \<and>
   (\<exists>t'. [\<lparr>root = None\<rparr>, \<lparr>root = Some 0\<rparr>] = snapshots (TrieStore_init 0) @ [t']) \<and>
   TrieStore_Remove [TrieNode_of [(CHR ''a'', 2)], TrieNode_default, TrieNodeWithValue [] ''int'' (1 :: int)]
       \<lparr>version = 0, snapshots = [\<lparr>root = None\<rparr>, \<lparr>root = Some 0\<rparr>]\<rparr> ''b'' =
     Inr (0, [TrieNode_of [(CHR ''a'', 2)], TrieNode_default, TrieNodeWithValue [] ''int'' 1],
          \<lparr>version = 0, snapshots = [\<lparr>root = None\<rparr>, \<lparr>root = Some 0\<rparr>]\<rparr>) \<and>
   TrieStore_Remove [TrieNode_of [(CHR ''a'', 2)], TrieNode_default, TrieNodeWithValue [] ''int'' (1 :: int)]
       \<lparr>version = 0, snapshots = [\<lparr>root = None\<rparr>, \<lparr>root = Some 0\<rparr>]\<rparr> ''a'' =
     Inr (0, [TrieNode_of [(CHR ''a'', 2)], TrieNode_default, TrieNodeWithValue [] ''int'' 1,
              TrieNode_of [(CHR ''a'', 4)], (TrieNodeWithValue [] ''int'' 1)\<lparr>is_value_node := False\<rparr>],
          \<lparr>version = 0, snapshots = [\<lparr>root = None\<rparr>, \<lparr>root = Some 0\<rparr>, \<lparr>root = Some 3\<rparr>]\<rparr>) \<and>
   (\<exists>t'. [\<lparr>root = None\<rparr>, \<lparr>root = Some 0\<rparr>, \<lparr>root = Some 3\<rparr>] =
           [\<lparr>root = None\<rparr>, \<lparr>root = Some 0\<rparr>] @ [t'])"
proof -
  define h1 :: "(string, int) heap" where
    "h1 = [TrieNode_of [(CHR ''a'', 2)], TrieNode_default, TrieNodeWithValue [] ''int'' 1]"
  define s1 where "s1 = \<lparr>version = 0 :: nat, snapshots = [\<lparr>root = None\<rparr>, \<lparr>root = Some 0\<rparr>]\<rparr>"
  define h2 :: "(string, int) heap" where
    "h2 = h1 @ [TrieNode_of [(CHR ''a'', 4)], (TrieNodeWithValue [] ''int'' 1)\<lparr>is_value_node := False\<rparr>]"
  define s2 where
    "s2 = \<lparr>version = 0 :: nat, snapshots = [\<lparr>root = None\<rparr>, \<lparr>root = Some 0\<rparr>, \<lparr>root = Some 3\<rparr>]\<rparr>"
  have put: "TrieStore_Put [] (TrieStore_init 0) ''a'' ''int'' (1 :: int) = Inr (0, h1, s1)"
    by (simp add: run h1_def s1_def)
  have noop: "TrieStore_Remove h1 s1 ''b'' = Inr (0, h1, s1)"
    by (simp add: run h1_def s1_def)
  have rem: "TrieStore_Remove h1 s1 ''a'' = Inr (0, h2, s2)"
    by (simp add: run h1_def s1_def h2_def s2_def)
  have "snapshots (TrieStore_init 0) \<noteq> [] \<and>
        (\<exists>t'. snapshots s1 = snapshots (TrieStore_init 0) @ [t'])"
    using C7_snapshots_start_with_one_and_only_grow
      [of 0 "[]" "TrieStore_init 0" "''a''" "''int''" "1 :: int" 0 h1 s1] put
    by blast
  moreover have "snapshots s2 = snapshots s1 \<or> (\<exists>t'. snapshots s2 = snapshots s1 @ [t'])"
    using C7_snapshots_start_with_one_and_only_grow
      [of 0 h1 s1 "''a''" "''int''" "1 :: int" 0 h2 s2] rem
    by blast
  ultimately show ?thesis
    using put noop rem by (simp add: h1_def s1_def h2_def s2_def)
qed


end
